theory Spec2Isabelle
  imports Complex_Main "HOL-Library.Signed_Division" "HOL-Library.Word"
begin

text \<open>
  The Newton fractal renderer: \<^verbatim>\<open>main.cpp\<close> computes the roots of unity, calls the Newton
  kernel of \<^verbatim>\<open>fractal.ispc\<close> for the root index and iteration count of every pixel, and
  colors the pixels. This theory models single-precision arithmetic, the color conversion
  \<^verbatim>\<open>hsv_to_rgb\<close>, the post-processing loop and the root computation of \<^verbatim>\<open>main\<close>, and the
  kernel as the specification describes it, and proves the properties claimed of them.
\<close>

section \<open>Single-precision floating point\<close>

text \<open>
  Every \<^verbatim>\<open>float\<close> of the program is an IEEE 754 binary32 value, and every operation on
  floats rounds its exact result to the nearest binary32 value, ties to even (the build
  neither fuses operations nor widens intermediate results). A finite value is modelled
  by the real number it denotes, next to the two infinities and NaN. The two zeros are
  one value here: the program only divides by values converted from an \<^verbatim>\<open>int\<close> or by sums
  of squares, whose zero is \<open>+0\<close>, and it consumes results through comparisons and casts to
  integers, which do not tell the zeros apart.
\<close>

datatype f32 = Fin real | PInf | NInf | NaN

definition pow2 :: "int \<Rightarrow> real" where
  "pow2 e = (if 0 \<le> e then 2 ^ nat e else 1 / 2 ^ nat (- e))"

text \<open>
  The binade of a magnitude \<open>x\<close>: the largest exponent \<open>e\<close> of \<open>lo..hi\<close> with
  \<open>2^e \<le> x\<close> (and \<open>lo\<close> when there is none), found by bisection. The search runs
  from the smallest normal exponent \<open>-126\<close> (below it all values share the subnormal
  spacing) to \<open>128\<close>, where every value overflows.
\<close>

function bisect_exp :: "int \<Rightarrow> int \<Rightarrow> real \<Rightarrow> int" where
  "bisect_exp lo hi x =
     (if hi \<le> lo then lo
      else if x < pow2 ((lo + hi + 1) div 2) then bisect_exp lo ((lo + hi + 1) div 2 - 1) x
      else bisect_exp ((lo + hi + 1) div 2) hi x)"
  by pat_completeness auto
termination
  by (relation "measure (\<lambda>(lo, hi, x). nat (hi - lo))") auto

declare bisect_exp.simps [simp del]

definition expo :: "real \<Rightarrow> int" where
  "expo x = bisect_exp (- 126) 128 \<bar>x\<bar>"

text \<open>The spacing of binary32 values around \<open>x\<close>: 24 significant bits.\<close>

definition quantum :: "real \<Rightarrow> real" where
  "quantum x = pow2 (expo x - 23)"

text \<open>Rounding to the nearest integer, ties to the even one.\<close>

definition rhe :: "real \<Rightarrow> int" where
  "rhe x = (let n = \<lfloor>x\<rfloor>; d = x - of_int n in
     if d < 1 / 2 then n
     else if 1 / 2 < d then n + 1
     else if even n then n else n + 1)"

definition rnd :: "real \<Rightarrow> real" where
  "rnd x = of_int (rhe (x / quantum x)) * quantum x"

text \<open>Round to nearest, ties to even, overflowing to an infinity.\<close>

definition round32 :: "real \<Rightarrow> f32" where
  "round32 x = (let r = rnd x in
     if pow2 128 \<le> r then PInf else if r \<le> - pow2 128 then NInf else Fin r)"

text \<open>A finite model value is a binary32 value when rounding leaves it alone.\<close>

fun is_f32 :: "f32 \<Rightarrow> bool" where
  "is_f32 (Fin x) = (round32 x = Fin x)"
| "is_f32 _ = True"

fun f32_add :: "f32 \<Rightarrow> f32 \<Rightarrow> f32" where
  "f32_add (Fin a) (Fin b) = round32 (a + b)"
| "f32_add (Fin a) y = y"
| "f32_add PInf (Fin b) = PInf"
| "f32_add PInf PInf = PInf"
| "f32_add PInf _ = NaN"
| "f32_add NInf (Fin b) = NInf"
| "f32_add NInf NInf = NInf"
| "f32_add NInf _ = NaN"
| "f32_add NaN _ = NaN"

fun f32_neg :: "f32 \<Rightarrow> f32" where
  "f32_neg (Fin a) = Fin (- a)"
| "f32_neg PInf = NInf"
| "f32_neg NInf = PInf"
| "f32_neg NaN = NaN"

definition f32_sub :: "f32 \<Rightarrow> f32 \<Rightarrow> f32" where
  "f32_sub x y = f32_add x (f32_neg y)"

text \<open>The sign of a value that is not NaN: \<open>-1\<close>, \<open>0\<close> or \<open>1\<close>.\<close>

fun f32_sgn :: "f32 \<Rightarrow> int" where
  "f32_sgn (Fin a) = (if a < 0 then - 1 else if a = 0 then 0 else 1)"
| "f32_sgn PInf = 1"
| "f32_sgn NInf = - 1"
| "f32_sgn NaN = 0"

text \<open>
  The result of an operation with an infinite operand or a zero divisor, from the sign
  of the exact result: an infinity, or NaN for a sign of zero (infinity times zero, zero
  over zero).
\<close>

definition signed_inf :: "int \<Rightarrow> f32" where
  "signed_inf k = (if k < 0 then NInf else if k = 0 then NaN else PInf)"

fun f32_mul :: "f32 \<Rightarrow> f32 \<Rightarrow> f32" where
  "f32_mul (Fin a) (Fin b) = round32 (a * b)"
| "f32_mul NaN _ = NaN"
| "f32_mul _ NaN = NaN"
| "f32_mul x y = signed_inf (f32_sgn x * f32_sgn y)"

fun f32_div :: "f32 \<Rightarrow> f32 \<Rightarrow> f32" where
  "f32_div (Fin a) (Fin b) =
     (if b = 0 then signed_inf (f32_sgn (Fin a)) else round32 (a / b))"
| "f32_div NaN _ = NaN"
| "f32_div _ NaN = NaN"
| "f32_div (Fin a) _ = Fin 0"
| "f32_div x (Fin b) = signed_inf (f32_sgn x * (if b < 0 then - 1 else 1))"
| "f32_div _ _ = NaN"

text \<open>Comparisons: every comparison with NaN is false.\<close>

fun f32_le :: "f32 \<Rightarrow> f32 \<Rightarrow> bool" where
  "f32_le NaN _ = False"
| "f32_le _ NaN = False"
| "f32_le NInf _ = True"
| "f32_le _ PInf = True"
| "f32_le (Fin a) (Fin b) = (a \<le> b)"
| "f32_le _ _ = False"

fun f32_lt :: "f32 \<Rightarrow> f32 \<Rightarrow> bool" where
  "f32_lt NaN _ = False"
| "f32_lt _ NaN = False"
| "f32_lt (Fin a) (Fin b) = (a < b)"
| "f32_lt PInf _ = False"
| "f32_lt _ NInf = False"
| "f32_lt _ _ = True"

fun f32_eq :: "f32 \<Rightarrow> f32 \<Rightarrow> bool" where
  "f32_eq NaN _ = False"
| "f32_eq _ NaN = False"
| "f32_eq x y = (x = y)"

text \<open>A value of the closed interval \<open>[0,1]\<close>.\<close>

fun in_unit :: "f32 \<Rightarrow> bool" where
  "in_unit (Fin x) = (0 \<le> x \<and> x \<le> 1)"
| "in_unit _ = False"

subsection \<open>Conversions\<close>

text \<open>\<^verbatim>\<open>(float)k\<close> for an \<^verbatim>\<open>int\<close>: the nearest binary32 value.\<close>

definition f32_of_int :: "int \<Rightarrow> f32" where
  "f32_of_int k = round32 (of_int k)"

definition trunc :: "real \<Rightarrow> int" where
  "trunc x = (if 0 \<le> x then \<lfloor>x\<rfloor> else \<lceil>x\<rceil>)"

text \<open>
  A cast from \<^verbatim>\<open>float\<close> to an integer type truncates towards zero; its behaviour is
  undefined when the truncated value does not fit the target type (and for NaN and the
  infinities). \<open>None\<close> stands for undefined behaviour.
\<close>

fun to_int :: "f32 \<Rightarrow> int option" where
  "to_int (Fin x) =
     (if - (2 ^ 31) \<le> trunc x \<and> trunc x < 2 ^ 31 then Some (trunc x) else None)"
| "to_int _ = None"

fun to_uchar :: "f32 \<Rightarrow> 8 word option" where
  "to_uchar (Fin x) =
     (if 0 \<le> trunc x \<and> trunc x \<le> 255 then Some (word_of_int (trunc x)) else None)"
| "to_uchar _ = None"

section \<open>Colors\<close>

record RGB =
  rgb_r :: "8 word"
  rgb_g :: "8 word"
  rgb_b :: "8 word"

text \<open>The aggregate \<^verbatim>\<open>{(unsigned char)x, (unsigned char)y, (unsigned char)z}\<close>.\<close>

definition rgb_cast :: "f32 \<Rightarrow> f32 \<Rightarrow> f32 \<Rightarrow> RGB option" where
  "rgb_cast x y z =
     (case to_uchar x of None \<Rightarrow> None | Some cr \<Rightarrow>
       (case to_uchar y of None \<Rightarrow> None | Some cg \<Rightarrow>
          (case to_uchar z of None \<Rightarrow> None | Some cb \<Rightarrow>
             Some \<lparr>rgb_r = cr, rgb_g = cg, rgb_b = cb\<rparr>)))"

text \<open>\<^verbatim>\<open>hsv_to_rgb\<close> of \<^verbatim>\<open>main.cpp\<close>.\<close>

definition hsv_to_rgb :: "f32 \<Rightarrow> f32 \<Rightarrow> f32 \<Rightarrow> RGB option" where
  "hsv_to_rgb h s v =
     (if f32_eq s (Fin 0) then
        rgb_cast (f32_mul v (f32_of_int 255)) (f32_mul v (f32_of_int 255))
          (f32_mul v (f32_of_int 255))
      else
        case to_int (f32_mul h (Fin 6)) of
          None \<Rightarrow> None
        | Some i \<Rightarrow>
            let f = f32_sub (f32_mul h (Fin 6)) (f32_of_int i);
                p = f32_mul v (f32_sub (Fin 1) s);
                q = f32_mul v (f32_sub (Fin 1) (f32_mul s f));
                t = f32_mul v (f32_sub (Fin 1) (f32_mul s (f32_sub (Fin 1) f)));
                i = i smod 6;
                v = f32_mul v (f32_of_int 255);
                p = f32_mul p (f32_of_int 255);
                q = f32_mul q (f32_of_int 255);
                t = f32_mul t (f32_of_int 255)
            in if i = 0 then rgb_cast v t p
               else if i = 1 then rgb_cast q v p
               else if i = 2 then rgb_cast p v t
               else if i = 3 then rgb_cast p q v
               else if i = 4 then rgb_cast t p v
               else rgb_cast v p q)"

section \<open>Post-processing\<close>

text \<open>A C++ \<^verbatim>\<open>int\<close> is a 32-bit word read as a signed number (\<open>sint\<close>); \<^verbatim>\<open>(float)k\<close> rounds its value.\<close>

type_synonym c_int = "32 word"

definition f32_of_c_int :: "c_int \<Rightarrow> f32" where
  "f32_of_c_int k = f32_of_int (sint k)"

text \<open>
  The body of the post-processing loop of \<^verbatim>\<open>main\<close> for one pixel, with its two
  intermediate values \<^verbatim>\<open>hue\<close> and \<^verbatim>\<open>value\<close>. \<^verbatim>\<open>pow\<close> belongs to the C library, not to this
  program: it is a parameter, which stands for the call together with the conversion of
  its result to \<^verbatim>\<open>float\<close>.
\<close>

definition pixel_hue :: "c_int \<Rightarrow> c_int \<Rightarrow> f32" where
  "pixel_hue root_index n = f32_div (f32_of_c_int root_index) (f32_of_c_int n)"

definition pixel_value :: "(f32 \<Rightarrow> f32 \<Rightarrow> f32) \<Rightarrow> c_int \<Rightarrow> f32 \<Rightarrow> c_int \<Rightarrow> f32" where
  "pixel_value pow max_iterations gamma iters =
     (let value = f32_sub (Fin 1) (f32_div (f32_of_c_int iters) (f32_of_c_int max_iterations))
      in pow value gamma)"

definition black :: RGB where
  "black = \<lparr>rgb_r = 0, rgb_g = 0, rgb_b = 0\<rparr>"

definition pixel_color ::
  "(f32 \<Rightarrow> f32 \<Rightarrow> f32) \<Rightarrow> c_int \<Rightarrow> c_int \<Rightarrow> f32 \<Rightarrow> c_int \<Rightarrow> c_int \<Rightarrow> RGB option" where
  "pixel_color pow n max_iterations gamma root_index iters =
     (if root_index = - 1 then Some black
      else
        let hue = pixel_hue root_index n;
            saturation = round32 (9 / 10);
            value = pixel_value pow max_iterations gamma iters
        in hsv_to_rgb hue saturation value)"

text \<open>
  The loop itself, over the \<open>npix = width * height\<close> pixels: \<^verbatim>\<open>image_data\<close> starts as
  \<open>npix\<close> zeroed pixels and slot \<open>i\<close> is overwritten with the color of pixel \<open>i\<close>, read from
  slot \<open>i\<close> of \<^verbatim>\<open>output_root\<close> and \<^verbatim>\<open>output_iters\<close> (vectors of \<open>npix\<close> elements in \<^verbatim>\<open>main\<close>).
  Undefined behaviour in one pixel is undefined behaviour of the loop.
\<close>

function post_loop ::
  "(f32 \<Rightarrow> f32 \<Rightarrow> f32) \<Rightarrow> c_int \<Rightarrow> c_int \<Rightarrow> f32 \<Rightarrow> c_int list \<Rightarrow> c_int list \<Rightarrow>
     nat \<Rightarrow> nat \<Rightarrow> RGB list \<Rightarrow> RGB list option" where
  "post_loop pow n max_iterations gamma output_root output_iters npix i image_data =
     (if i < npix then
        (case pixel_color pow n max_iterations gamma (output_root ! i) (output_iters ! i) of
           None \<Rightarrow> None
         | Some c \<Rightarrow>
             post_loop pow n max_iterations gamma output_root output_iters npix (i + 1)
               (image_data[i := c]))
      else Some image_data)"
  by pat_completeness auto
termination
  by (relation "measure (\<lambda>(pow, n, m, g, rs, its, npix, i, img). npix - i)") auto

declare post_loop.simps [simp del]

definition post_process ::
  "(f32 \<Rightarrow> f32 \<Rightarrow> f32) \<Rightarrow> c_int \<Rightarrow> c_int \<Rightarrow> f32 \<Rightarrow> nat \<Rightarrow> c_int list \<Rightarrow> c_int list \<Rightarrow>
     RGB list option" where
  "post_process pow n max_iterations gamma npix output_root output_iters =
     post_loop pow n max_iterations gamma output_root output_iters npix 0
       (replicate npix black)"

text \<open>
  Two facts about \<^verbatim>\<open>pow\<close> that the properties below rest on: with exponent 1 it returns a
  finite base unchanged, and a zero base with a positive exponent gives zero (C standard,
  F.10.4.4).
\<close>

definition pow_exponent_one :: "(f32 \<Rightarrow> f32 \<Rightarrow> f32) \<Rightarrow> bool" where
  "pow_exponent_one pow = (\<forall>x. is_f32 (Fin x) \<longrightarrow> pow (Fin x) (Fin 1) = Fin x)"

definition pow_zero_base :: "(f32 \<Rightarrow> f32 \<Rightarrow> f32) \<Rightarrow> bool" where
  "pow_zero_base pow = (\<forall>g. f32_lt (Fin 0) g \<longrightarrow> pow (Fin 0) g = Fin 0)"

text \<open>
  A stand-in for \<^verbatim>\<open>pow\<close> on the arguments where its result is simple: a zero base with a
  positive exponent gives zero, and a natural-number exponent gives the correctly rounded
  power of a finite base. It instantiates the parameter in examples; everywhere else it
  returns NaN.
\<close>

definition pow_nat_exponent :: "f32 \<Rightarrow> f32 \<Rightarrow> f32" where
  "pow_nat_exponent x y =
     (if x = Fin 0 \<and> f32_lt (Fin 0) y then Fin 0
      else case (x, y) of
        (Fin a, Fin b) \<Rightarrow>
          if 0 \<le> b \<and> of_int \<lfloor>b\<rfloor> = b then round32 (a ^ nat \<lfloor>b\<rfloor>) else NaN
      | _ \<Rightarrow> NaN)"

text \<open>The brightness of a color: the HSV value of an RGB triple is its largest channel.\<close>

definition rgb_value :: "RGB \<Rightarrow> 8 word" where
  "rgb_value c = max (rgb_r c) (max (rgb_g c) (rgb_b c))"

section \<open>The roots of unity\<close>

text \<open>\<^verbatim>\<open>struct Complex\<close> of \<^verbatim>\<open>main.cpp\<close>: the fields \<^verbatim>\<open>r\<close> and \<^verbatim>\<open>i\<close>.\<close>

record complex_f32 =
  c_re :: f32
  c_im :: f32

text \<open>
  \<^verbatim>\<open>main\<close> computes the angle of every root in double precision. A \<^verbatim>\<open>double\<close> is an
  IEEE 754 binary64 value, modelled like a \<^verbatim>\<open>float\<close>: 53 significant bits, normal
  exponents from \<open>-1022\<close> on, overflow from \<open>2^1024\<close> on, every operation rounded to the
  nearest value, ties to even.
\<close>

datatype f64 = DFin real | DPInf | DNInf | DNaN

definition expo64 :: "real \<Rightarrow> int" where
  "expo64 x = bisect_exp (- 1022) 1024 \<bar>x\<bar>"

definition quantum64 :: "real \<Rightarrow> real" where
  "quantum64 x = pow2 (expo64 x - 52)"

definition rnd64 :: "real \<Rightarrow> real" where
  "rnd64 x = of_int (rhe (x / quantum64 x)) * quantum64 x"

definition round64 :: "real \<Rightarrow> f64" where
  "round64 x = (let r = rnd64 x in
     if pow2 1024 \<le> r then DPInf else if r \<le> - pow2 1024 then DNInf else DFin r)"

fun f64_sgn :: "f64 \<Rightarrow> int" where
  "f64_sgn (DFin a) = (if a < 0 then - 1 else if a = 0 then 0 else 1)"
| "f64_sgn DPInf = 1"
| "f64_sgn DNInf = - 1"
| "f64_sgn DNaN = 0"

definition signed_inf64 :: "int \<Rightarrow> f64" where
  "signed_inf64 k = (if k < 0 then DNInf else if k = 0 then DNaN else DPInf)"

fun f64_mul :: "f64 \<Rightarrow> f64 \<Rightarrow> f64" where
  "f64_mul (DFin a) (DFin b) = round64 (a * b)"
| "f64_mul DNaN _ = DNaN"
| "f64_mul _ DNaN = DNaN"
| "f64_mul x y = signed_inf64 (f64_sgn x * f64_sgn y)"

fun f64_div :: "f64 \<Rightarrow> f64 \<Rightarrow> f64" where
  "f64_div (DFin a) (DFin b) =
     (if b = 0 then signed_inf64 (f64_sgn (DFin a)) else round64 (a / b))"
| "f64_div DNaN _ = DNaN"
| "f64_div _ DNaN = DNaN"
| "f64_div (DFin a) _ = DFin 0"
| "f64_div x (DFin b) = signed_inf64 (f64_sgn x * (if b < 0 then - 1 else 1))"
| "f64_div _ _ = DNaN"

text \<open>The conversion of an \<^verbatim>\<open>int\<close> operand to \<^verbatim>\<open>double\<close>, and the cast \<^verbatim>\<open>(float)d\<close>.\<close>

definition f64_of_c_int :: "c_int \<Rightarrow> f64" where
  "f64_of_c_int k = round64 (of_int (sint k))"

fun f32_of_f64 :: "f64 \<Rightarrow> f32" where
  "f32_of_f64 (DFin x) = round32 x"
| "f32_of_f64 DPInf = PInf"
| "f32_of_f64 DNInf = NInf"
| "f32_of_f64 DNaN = NaN"

text \<open>
  \<^verbatim>\<open>M_PI\<close> of \<^verbatim>\<open><cmath>\<close>: the literal \<^verbatim>\<open>3.14159265358979323846\<close>, whose nearest binary64 value
  is \<^verbatim>\<open>0x1.921fb54442d18p+1\<close>.
\<close>

definition M_PI :: f64 where
  "M_PI = DFin (884279719003555 / 2 ^ 48)"

text \<open>\<^verbatim>\<open>double angle = 2.0 * M_PI * k / n\<close>, evaluated from left to right.\<close>

definition root_angle :: "c_int \<Rightarrow> c_int \<Rightarrow> f64" where
  "root_angle k n = f64_div (f64_mul (f64_mul (DFin 2) M_PI) (f64_of_c_int k)) (f64_of_c_int n)"

text \<open>
  The loop \<^verbatim>\<open>for (int k = 0; k < n; ++k)\<close> of \<^verbatim>\<open>main\<close>, which stores
  \<^verbatim>\<open>{(float)std::cos(angle), (float)std::sin(angle)}\<close> in slot \<open>k\<close> of \<^verbatim>\<open>roots\<close>. \<^verbatim>\<open>std::cos\<close>
  and \<^verbatim>\<open>std::sin\<close> belong to the C library, not to this program: they are the parameters
  \<open>dcos\<close> and \<open>dsin\<close>.
\<close>

function roots_loop ::
  "(f64 \<Rightarrow> f64) \<Rightarrow> (f64 \<Rightarrow> f64) \<Rightarrow> c_int \<Rightarrow> c_int \<Rightarrow> complex_f32 list \<Rightarrow> complex_f32 list" where
  "roots_loop dcos dsin n k roots =
     (if k <s n then
        let angle = root_angle k n
        in roots_loop dcos dsin n (k + 1)
             (roots[nat (sint k) :=
                \<lparr>c_re = f32_of_f64 (dcos angle), c_im = f32_of_f64 (dsin angle)\<rparr>])
      else roots)"
  by pat_completeness auto
termination
proof (relation "measure (\<lambda>(dcos, dsin, n, k, roots). nat (sint n - sint k))")
  show "wf (measure (\<lambda>(dcos, dsin, n, k, roots). nat (sint n - sint k)))" by simp
next
  fix dcos dsin :: "f64 \<Rightarrow> f64" and n k :: c_int and roots :: "complex_f32 list" and angle :: f64
  assume "k <s n"
  then have lt: "sint k < sint n" by (simp only: word_sless_alt)
  have "sint (k + 1) = signed_take_bit 31 (sint k + sint (1 :: c_int))"
    using sint_word_ariths(1) [of k 1] by simp
  also have "sint (1 :: c_int) = 1" by simp
  also have "signed_take_bit 31 (sint k + 1) = sint k + 1"
    using lt sint_ge [of k] sint_lt [of n] by (intro signed_take_bit_int_eq_self) simp_all
  finally have "sint (k + 1) = sint k + 1" .
  with lt show "((dcos, dsin, n, k + 1,
        roots[nat (sint k) := \<lparr>c_re = f32_of_f64 (dcos angle), c_im = f32_of_f64 (dsin angle)\<rparr>]),
       (dcos, dsin, n, k, roots))
      \<in> measure (\<lambda>(dcos, dsin, n, k, roots). nat (sint n - sint k))"
    by simp
qed

declare roots_loop.simps [simp del]

text \<open>
  Step 2 of \<^verbatim>\<open>main\<close>: \<^verbatim>\<open>std::vector<Complex> roots(n)\<close> followed by the loop. The
  constructor takes its size as an unsigned number and throws for a negative \<open>n\<close>, which is
  the result \<open>None\<close>; otherwise the vector starts as \<open>n\<close> zeroed elements.
\<close>

definition compute_roots ::
  "(f64 \<Rightarrow> f64) \<Rightarrow> (f64 \<Rightarrow> f64) \<Rightarrow> c_int \<Rightarrow> complex_f32 list option" where
  "compute_roots dcos dsin n =
     (if n <s 0 then None
      else Some (roots_loop dcos dsin n 0
                   (replicate (nat (sint n)) \<lparr>c_re = Fin 0, c_im = Fin 0\<rparr>)))"

text \<open>
  The accuracy of the library: on every finite argument \<open>dcos\<close> and \<open>dsin\<close> return a
  finite value within \<open>e\<close> of the cosine and the sine.
\<close>

definition libm_accurate :: "real \<Rightarrow> (f64 \<Rightarrow> f64) \<Rightarrow> (f64 \<Rightarrow> f64) \<Rightarrow> bool" where
  "libm_accurate e dcos dsin =
     (\<forall>x. \<exists>c s. dcos (DFin x) = DFin c \<and> dsin (DFin x) = DFin s \<and>
                 \<bar>c - cos x\<bar> \<le> e \<and> \<bar>s - sin x\<bar> \<le> e)"

text \<open>
  Stand-ins for \<^verbatim>\<open>std::cos\<close> and \<^verbatim>\<open>std::sin\<close> in examples: the correctly rounded cosine and
  sine of a finite argument, and NaN elsewhere.
\<close>

fun rounded_cos :: "f64 \<Rightarrow> f64" where
  "rounded_cos (DFin x) = round64 (cos x)"
| "rounded_cos _ = DNaN"

fun rounded_sin :: "f64 \<Rightarrow> f64" where
  "rounded_sin (DFin x) = round64 (sin x)"
| "rounded_sin _ = DNaN"

section \<open>The HSV conversion as the specification words it\<close>

text \<open>
  The specification's description of the conversion, for a hue in \<open>[0,1)\<close>: the hue
  times six splits into an integer sector and a fractional remainder, the sector picks
  a row of a fixed table, and every channel is scaled by 255 and truncated.
\<close>

definition hsv_sector :: "f32 \<Rightarrow> int" where
  "hsv_sector h = (case f32_mul h (Fin 6) of Fin x \<Rightarrow> \<lfloor>x\<rfloor> | _ \<Rightarrow> 0)"

definition hsv_fraction :: "f32 \<Rightarrow> f32" where
  "hsv_fraction h = (case f32_mul h (Fin 6) of Fin x \<Rightarrow> Fin (x - of_int \<lfloor>x\<rfloor>) | y \<Rightarrow> y)"

definition sector_table :: "int \<Rightarrow> f32 \<Rightarrow> f32 \<Rightarrow> f32 \<Rightarrow> f32 \<Rightarrow> (f32 \<times> f32 \<times> f32) option" where
  "sector_table i v p q t =
     (if i = 0 then Some (v, t, p)
      else if i = 1 then Some (q, v, p)
      else if i = 2 then Some (p, v, t)
      else if i = 3 then Some (p, q, v)
      else if i = 4 then Some (t, p, v)
      else if i = 5 then Some (v, p, q)
      else None)"

definition scale_channels :: "f32 \<times> f32 \<times> f32 \<Rightarrow> RGB option" where
  "scale_channels c =
     (case c of (x, y, z) \<Rightarrow>
        rgb_cast (f32_mul x (Fin 255)) (f32_mul y (Fin 255)) (f32_mul z (Fin 255)))"

definition hsv_to_rgb_spec :: "f32 \<Rightarrow> f32 \<Rightarrow> f32 \<Rightarrow> RGB option" where
  "hsv_to_rgb_spec h s v =
     (let f = hsv_fraction h;
          p = f32_mul v (f32_sub (Fin 1) s);
          q = f32_mul v (f32_sub (Fin 1) (f32_mul s f));
          t = f32_mul v (f32_sub (Fin 1) (f32_mul s (f32_sub (Fin 1) f)))
      in case sector_table (hsv_sector h) v p q t of
           None \<Rightarrow> None
         | Some c \<Rightarrow> scale_channels c)"

section \<open>The root solver\<close>

text \<open>
  The Newton kernel is \<^verbatim>\<open>newton_fractal_ispc\<close> of \<^verbatim>\<open>fractal.ispc\<close>; \<^verbatim>\<open>main.cpp\<close> holds its
  call only. The definitions of this section follow the specification's description of
  the kernel (section 4.1).
\<close>

text \<open>
  Modelled from the spec: PixelResult, "a pair (root_index: integer in [-1, n-1],
  iteration_count: non-negative integer)".
\<close>

record PixelResult =
  pr_root_index :: int
  pr_iteration_count :: int

text \<open>
  Modelled from the spec: the pixel-to-complex mapping of \<^verbatim>\<open>fractal.ispc\<close>,
  \<^verbatim>\<open>z.real = x_min + px/(width-1) * (x_max-x_min)\<close> and
  \<^verbatim>\<open>z.imag = y_min + py/(height-1) * (y_max-y_min)\<close>, in single precision.
\<close>

definition pixel_to_complex ::
  "f32 \<Rightarrow> f32 \<Rightarrow> f32 \<Rightarrow> f32 \<Rightarrow> c_int \<Rightarrow> c_int \<Rightarrow> c_int \<Rightarrow> c_int \<Rightarrow> complex_f32" where
  "pixel_to_complex x_min x_max y_min y_max width height px py =
     \<lparr>c_re = f32_add x_min
               (f32_mul (f32_div (f32_of_c_int px) (f32_of_c_int (width - 1)))
                        (f32_sub x_max x_min)),
      c_im = f32_add y_min
               (f32_mul (f32_div (f32_of_c_int py) (f32_of_c_int (height - 1)))
                        (f32_sub y_max y_min))\<rparr>"

text \<open>
  Modelled from the spec: the complex arithmetic of \<^verbatim>\<open>fractal.ispc\<close>, "ordinary (a+bi) field
  arithmetic" in single precision: difference, product, squared magnitude and quotient.
\<close>

definition c_sub :: "complex_f32 \<Rightarrow> complex_f32 \<Rightarrow> complex_f32" where
  "c_sub z w = \<lparr>c_re = f32_sub (c_re z) (c_re w), c_im = f32_sub (c_im z) (c_im w)\<rparr>"

definition c_mul :: "complex_f32 \<Rightarrow> complex_f32 \<Rightarrow> complex_f32" where
  "c_mul z w =
     \<lparr>c_re = f32_sub (f32_mul (c_re z) (c_re w)) (f32_mul (c_im z) (c_im w)),
      c_im = f32_add (f32_mul (c_re z) (c_im w)) (f32_mul (c_im z) (c_re w))\<rparr>"

definition c_norm_sq :: "complex_f32 \<Rightarrow> f32" where
  "c_norm_sq z = f32_add (f32_mul (c_re z) (c_re z)) (f32_mul (c_im z) (c_im z))"

definition c_div :: "complex_f32 \<Rightarrow> complex_f32 \<Rightarrow> complex_f32" where
  "c_div z w =
     \<lparr>c_re = f32_div (f32_add (f32_mul (c_re z) (c_re w)) (f32_mul (c_im z) (c_im w)))
               (c_norm_sq w),
      c_im = f32_div (f32_sub (f32_mul (c_im z) (c_re w)) (f32_mul (c_re z) (c_im w)))
               (c_norm_sq w)\<rparr>"

text \<open>
  Modelled from the spec: \<open>f(z) = z^n - 1\<close> and \<open>f'(z) = n z^(n-1)\<close> "via repeated complex
  multiplication".
\<close>

fun c_pow :: "complex_f32 \<Rightarrow> nat \<Rightarrow> complex_f32" where
  "c_pow z 0 = \<lparr>c_re = Fin 1, c_im = Fin 0\<rparr>"
| "c_pow z (Suc k) = c_mul (c_pow z k) z"

definition newton_f :: "nat \<Rightarrow> complex_f32 \<Rightarrow> complex_f32" where
  "newton_f n z = c_sub (c_mul (c_pow z (n - 1)) z) \<lparr>c_re = Fin 1, c_im = Fin 0\<rparr>"

definition newton_f' :: "nat \<Rightarrow> complex_f32 \<Rightarrow> complex_f32" where
  "newton_f' n z =
     \<lparr>c_re = f32_mul (f32_of_int (int n)) (c_re (c_pow z (n - 1))),
      c_im = f32_mul (f32_of_int (int n)) (c_im (c_pow z (n - 1)))\<rparr>"

text \<open>
  Modelled from the spec: the convergence test, "the index of the root in RootSet whose
  squared distance to z is below tolerance_sq", the lowest index winning; \<open>-1\<close> when no
  root matches.
\<close>

fun find_root :: "complex_f32 list \<Rightarrow> f32 \<Rightarrow> complex_f32 \<Rightarrow> int \<Rightarrow> int" where
  "find_root [] tolerance_sq z k = - 1"
| "find_root (r # roots) tolerance_sq z k =
     (if f32_lt (c_norm_sq (c_sub z r)) tolerance_sq then k
      else find_root roots tolerance_sq z (k + 1))"

text \<open>
  Modelled from the spec: the three ways the iteration of a pixel ends: a root matched,
  the derivative was numerically zero, or the budget was exhausted.
\<close>

datatype exit = Converged | ZeroDerivative | BudgetExhausted

text \<open>
  Modelled from the spec: the Newton iteration of \<^verbatim>\<open>fractal.ispc\<close> (steps 2 to 4 of
  section 4.1). The specification leaves open when \<open>|f'(z)|\<close> counts as numerically
  zero, so that test is the parameter \<open>zero_derivative\<close>. \<open>iter\<close> counts the updates made
  so far; that count is the iteration count returned at every exit.
\<close>

function newton_loop ::
  "(complex_f32 \<Rightarrow> bool) \<Rightarrow> nat \<Rightarrow> complex_f32 list \<Rightarrow> int \<Rightarrow> f32 \<Rightarrow> int \<Rightarrow> complex_f32 \<Rightarrow>
     PixelResult \<times> exit" where
  "newton_loop zero_derivative n roots max_iterations tolerance_sq iter z =
     (if iter < max_iterations then
        if zero_derivative (newton_f' n z) then
          (\<lparr>pr_root_index = - 1, pr_iteration_count = iter\<rparr>, ZeroDerivative)
        else
          let z = c_sub z (c_div (newton_f n z) (newton_f' n z));
              k = find_root roots tolerance_sq z 0
          in if k \<noteq> - 1 then
               (\<lparr>pr_root_index = k, pr_iteration_count = iter + 1\<rparr>, Converged)
             else
               newton_loop zero_derivative n roots max_iterations tolerance_sq (iter + 1) z
      else (\<lparr>pr_root_index = - 1, pr_iteration_count = max_iterations\<rparr>, BudgetExhausted))"
  by pat_completeness auto
termination
  by (relation "measure (\<lambda>(zd, n, roots, m, tol, iter, z). nat (m - iter))") auto

declare newton_loop.simps [simp del]

text \<open>
  Modelled from the spec: one choice of the numerically-zero test that the specification
  leaves open, used in examples: the squared magnitude of the derivative is exactly zero.
\<close>

definition exactly_zero :: "complex_f32 \<Rightarrow> bool" where
  "exactly_zero w = f32_eq (c_norm_sq w) (Fin 0)"

text \<open>
  Modelled from the spec: the Root Solver of \<^verbatim>\<open>fractal.ispc\<close> for one pixel, the mapping of
  the pixel followed by the iteration from no update made.
\<close>

definition root_solver ::
  "(complex_f32 \<Rightarrow> bool) \<Rightarrow> f32 \<Rightarrow> f32 \<Rightarrow> f32 \<Rightarrow> f32 \<Rightarrow> c_int \<Rightarrow> c_int \<Rightarrow> nat \<Rightarrow>
     complex_f32 list \<Rightarrow> int \<Rightarrow> f32 \<Rightarrow> c_int \<Rightarrow> c_int \<Rightarrow> PixelResult \<times> exit" where
  "root_solver zero_derivative x_min x_max y_min y_max width height n roots max_iterations
       tolerance_sq px py =
     newton_loop zero_derivative n roots max_iterations tolerance_sq 0
       (pixel_to_complex x_min x_max y_min y_max width height px py)"

section \<open>Facts about binary32 rounding\<close>

subsection \<open>Powers of two and the binade search\<close>

lemma pow2_powi: "pow2 e = 2 powi e"
  by (simp add: pow2_def power_int_def inverse_eq_divide power_one_over)

lemma pow2_pos [simp]: "0 < pow2 e"
  by (simp add: pow2_powi zero_less_power_int)

lemma pow2_mono: "a \<le> b \<Longrightarrow> pow2 a \<le> pow2 b"
  by (simp add: pow2_powi power_int_increasing)

lemma pow2_add: "pow2 (a + b) = pow2 a * pow2 b"
  by (simp add: pow2_powi power_int_add)

lemma pow2_diff: "pow2 (a - b) = pow2 a / pow2 b"
  by (simp add: pow2_powi power_int_diff)

lemma pow2_nat: "0 \<le> e \<Longrightarrow> pow2 e = 2 ^ nat e"
  by (simp add: pow2_def)

lemma bisect_exp_range: "lo \<le> hi \<Longrightarrow> lo \<le> bisect_exp lo hi x \<and> bisect_exp lo hi x \<le> hi"
proof (induction lo hi x rule: bisect_exp.induct)
  case (1 lo hi x)
  show ?case
  proof (cases "hi \<le> lo")
    case True
    with "1.prems" show ?thesis by (simp add: bisect_exp.simps)
  next
    case False
    show ?thesis
    proof (cases "x < pow2 ((lo + hi + 1) div 2)")
      case True
      with False "1.IH"(1) "1.prems" show ?thesis
        by (subst (1 2) bisect_exp.simps) (simp, linarith)
    next
      case b: False
      with False "1.IH"(2) "1.prems" show ?thesis
        by (subst (1 2) bisect_exp.simps) (simp, linarith)
    qed
  qed
qed

lemma bisect_exp_lower: "lo < bisect_exp lo hi x \<Longrightarrow> pow2 (bisect_exp lo hi x) \<le> x"
proof (induction lo hi x rule: bisect_exp.induct)
  case (1 lo hi x)
  show ?case
  proof (cases "hi \<le> lo")
    case True
    with "1.prems" show ?thesis by (simp add: bisect_exp.simps)
  next
    case False
    show ?thesis
    proof (cases "x < pow2 ((lo + hi + 1) div 2)")
      case True
      with False have eq: "bisect_exp lo hi x = bisect_exp lo ((lo + hi + 1) div 2 - 1) x"
        by (subst bisect_exp.simps) simp
      with False True "1.IH"(1) "1.prems" show ?thesis by simp
    next
      case b: False
      with False have eq: "bisect_exp lo hi x = bisect_exp ((lo + hi + 1) div 2) hi x"
        by (subst bisect_exp.simps) simp
      let ?m = "(lo + hi + 1) div 2"
      from False have "?m \<le> hi" by linarith
      then have r: "?m \<le> bisect_exp ?m hi x" using bisect_exp_range by blast
      show ?thesis
      proof (cases "?m < bisect_exp ?m hi x")
        case True
        with False b "1.IH"(2) eq show ?thesis by simp
      next
        case False
        with r have "bisect_exp ?m hi x = ?m" by simp
        with b eq show ?thesis by simp
      qed
    qed
  qed
qed

lemma bisect_exp_upper: "lo \<le> hi \<Longrightarrow> bisect_exp lo hi x < hi \<Longrightarrow> x < pow2 (bisect_exp lo hi x + 1)"
proof (induction lo hi x rule: bisect_exp.induct)
  case (1 lo hi x)
  show ?case
  proof (cases "hi \<le> lo")
    case True
    with "1.prems" show ?thesis by (simp add: bisect_exp.simps)
  next
    case False
    let ?m = "(lo + hi + 1) div 2"
    show ?thesis
    proof (cases "x < pow2 ?m")
      case True
      with False have eq: "bisect_exp lo hi x = bisect_exp lo (?m - 1) x"
        by (subst bisect_exp.simps) simp
      from False have lm: "lo \<le> ?m - 1" by linarith
      then have r: "bisect_exp lo (?m - 1) x \<le> ?m - 1" using bisect_exp_range by blast
      show ?thesis
      proof (cases "bisect_exp lo (?m - 1) x < ?m - 1")
        case t: True
        with False True "1.IH"(1) lm eq show ?thesis by simp
      next
        case f: False
        with r have "bisect_exp lo (?m - 1) x = ?m - 1" by simp
        with True eq show ?thesis by simp
      qed
    next
      case b: False
      with False have eq: "bisect_exp lo hi x = bisect_exp ?m hi x"
        by (subst bisect_exp.simps) simp
      from False have "?m \<le> hi" by linarith
      with False b "1.IH"(2) eq "1.prems" show ?thesis by simp
    qed
  qed
qed

lemma expo_range: "- 126 \<le> expo x \<and> expo x \<le> 128"
  unfolding expo_def using bisect_exp_range [of "- 126" 128] by simp

lemma expo_lower: "- 126 < expo x \<Longrightarrow> pow2 (expo x) \<le> \<bar>x\<bar>"
  unfolding expo_def by (rule bisect_exp_lower)

lemma expo_upper: "expo x < 128 \<Longrightarrow> \<bar>x\<bar> < pow2 (expo x + 1)"
  unfolding expo_def by (rule bisect_exp_upper) simp_all

lemma expo_mono: "\<bar>x\<bar> \<le> \<bar>y\<bar> \<Longrightarrow> expo x \<le> expo y"
proof (rule ccontr)
  assume le: "\<bar>x\<bar> \<le> \<bar>y\<bar>" and "\<not> expo x \<le> expo y"
  then have lt: "expo y < expo x" by simp
  with expo_range [of y] have "- 126 < expo x" by linarith
  then have a: "pow2 (expo x) \<le> \<bar>x\<bar>" by (rule expo_lower)
  from lt expo_range [of x] have "expo y < 128" by linarith
  then have b: "\<bar>y\<bar> < pow2 (expo y + 1)" by (rule expo_upper)
  from lt have "pow2 (expo y + 1) \<le> pow2 (expo x)" by (intro pow2_mono) simp
  with a b le show False by linarith
qed

lemma expo_neg [simp]: "expo (- x) = expo x"
  by (simp add: expo_def)

lemma expo_unique:
  assumes "pow2 e \<le> \<bar>x\<bar>" "\<bar>x\<bar> < pow2 (e + 1)" "- 126 \<le> e" "e \<le> 127"
  shows "expo x = e"
proof (rule antisym)
  show "expo x \<le> e"
  proof (rule ccontr)
    assume "\<not> expo x \<le> e"
    then have lt: "e + 1 \<le> expo x" by simp
    with assms have "- 126 < expo x" by linarith
    then have "pow2 (expo x) \<le> \<bar>x\<bar>" by (rule expo_lower)
    moreover from lt have "pow2 (e + 1) \<le> pow2 (expo x)" by (rule pow2_mono)
    ultimately show False using assms(2) by linarith
  qed
next
  show "e \<le> expo x"
  proof (rule ccontr)
    assume "\<not> e \<le> expo x"
    then have lt: "expo x + 1 \<le> e" by simp
    with assms have "expo x < 128" by linarith
    then have "\<bar>x\<bar> < pow2 (expo x + 1)" by (rule expo_upper)
    moreover from lt have "pow2 (expo x + 1) \<le> pow2 e" by (rule pow2_mono)
    ultimately show False using assms(1) by linarith
  qed
qed

subsection \<open>Rounding to the nearest integer\<close>

lemma rhe_of_int [simp]: "rhe (of_int k) = k"
  by (simp add: rhe_def)

lemma rhe_bounds: "\<lfloor>x\<rfloor> \<le> rhe x \<and> rhe x \<le> \<lfloor>x\<rfloor> + 1"
  by (simp add: rhe_def Let_def)

lemma rhe_mono: "x \<le> y \<Longrightarrow> rhe x \<le> rhe y"
proof -
  assume le: "x \<le> y"
  then have fl: "\<lfloor>x\<rfloor> \<le> \<lfloor>y\<rfloor>" by (rule floor_mono)
  show ?thesis
  proof (cases "\<lfloor>x\<rfloor> = \<lfloor>y\<rfloor>")
    case True
    with le show ?thesis by (auto simp: rhe_def Let_def)
  next
    case False
    with fl have "\<lfloor>x\<rfloor> + 1 \<le> \<lfloor>y\<rfloor>" by simp
    with rhe_bounds [of x] rhe_bounds [of y] show ?thesis by linarith
  qed
qed

lemma rhe_neg: "rhe (- x) = - rhe x"
proof (cases "x \<in> \<int>")
  case True
  then obtain k where "x = of_int k" by (auto elim: Ints_cases)
  then have "rhe (- x) = rhe (of_int (- k))" by simp
  also have "\<dots> = - k" by (rule rhe_of_int)
  finally show ?thesis using \<open>x = of_int k\<close> by simp
next
  case False
  then have ne: "x \<noteq> of_int \<lfloor>x\<rfloor>" by (metis Ints_of_int)
  then have fl: "\<lfloor>- x\<rfloor> = - \<lfloor>x\<rfloor> - 1"
    by (simp add: floor_minus ceiling_altdef)
  have d: "x - of_int \<lfloor>x\<rfloor> < 1" by linarith
  show ?thesis
    using ne unfolding rhe_def Let_def fl by (auto simp: field_simps)
qed

subsection \<open>Rounding is monotone\<close>

lemma quantum_pos [simp]: "0 < quantum x"
  by (simp add: quantum_def)

lemma quantum_nonneg [simp]: "0 \<le> quantum x"
  using quantum_pos [of x] by linarith

lemma quantum_neg [simp]: "quantum (- x) = quantum x"
  by (simp add: quantum_def)

lemma rnd_neg: "rnd (- x) = - rnd x"
  by (simp add: rnd_def rhe_neg)

lemma rnd_nonneg: "0 \<le> x \<Longrightarrow> 0 \<le> rnd x"
proof -
  assume "0 \<le> x"
  then have "0 \<le> x / quantum x" by simp
  then have "rhe 0 \<le> rhe (x / quantum x)" by (rule rhe_mono)
  moreover have "rhe 0 = 0" using rhe_of_int [of 0] by simp
  ultimately show ?thesis by (simp add: rnd_def)
qed

lemma rnd_le_binade:
  assumes "0 \<le> x" "expo x < 128"
  shows "rnd x \<le> pow2 (expo x + 1)"
proof -
  have "x < pow2 (expo x + 1)" using expo_upper [OF assms(2)] assms(1) by simp
  then have "x / quantum x \<le> pow2 (expo x + 1) / quantum x"
    by (simp add: divide_right_mono)
  also have "pow2 (expo x + 1) / quantum x = pow2 24"
    unfolding quantum_def by (simp add: pow2_diff [symmetric])
  also have "pow2 24 = of_int (2 ^ 24)" by (simp add: pow2_def)
  finally have "rhe (x / quantum x) \<le> rhe (of_int (2 ^ 24))" by (rule rhe_mono)
  then have "rhe (x / quantum x) \<le> 2 ^ 24" by (simp only: rhe_of_int)
  then have "of_int (rhe (x / quantum x)) \<le> (of_int (2 ^ 24) :: real)" by (simp only: of_int_le_iff)
  then have "rnd x \<le> of_int (2 ^ 24) * quantum x"
    unfolding rnd_def by (simp add: mult_right_mono)
  also have "of_int (2 ^ 24) * quantum x = pow2 24 * pow2 (expo x - 23)"
    by (simp add: pow2_def quantum_def)
  also have "\<dots> = pow2 (24 + (expo x - 23))" by (simp only: pow2_add)
  also have "24 + (expo x - 23) = expo x + 1" by simp
  finally show ?thesis .
qed

lemma rnd_ge_binade:
  assumes "0 \<le> x" "- 126 < expo x"
  shows "pow2 (expo x) \<le> rnd x"
proof -
  have "pow2 (expo x) \<le> x" using expo_lower [OF assms(2)] assms(1) by simp
  then have "pow2 (expo x) / quantum x \<le> x / quantum x"
    by (simp add: divide_right_mono)
  moreover have "pow2 (expo x) / quantum x = pow2 23"
    unfolding quantum_def by (simp add: pow2_diff [symmetric])
  moreover have "pow2 23 = of_int (2 ^ 23)" by (simp add: pow2_def)
  ultimately have "of_int (2 ^ 23) \<le> x / quantum x" by simp
  then have "rhe (of_int (2 ^ 23)) \<le> rhe (x / quantum x)" by (rule rhe_mono)
  then have "2 ^ 23 \<le> rhe (x / quantum x)" by (simp only: rhe_of_int)
  then have "(of_int (2 ^ 23) :: real) \<le> of_int (rhe (x / quantum x))" by (simp only: of_int_le_iff)
  then have "of_int (2 ^ 23) * quantum x \<le> rnd x"
    unfolding rnd_def by (simp add: mult_right_mono)
  moreover have "of_int (2 ^ 23) * quantum x = pow2 23 * pow2 (expo x - 23)"
    by (simp add: pow2_def quantum_def)
  moreover have "\<dots> = pow2 (23 + (expo x - 23))" by (simp only: pow2_add)
  moreover have "23 + (expo x - 23) = expo x" by simp
  ultimately show ?thesis by simp
qed

lemma rnd_mono_nonneg:
  assumes "0 \<le> x" "x \<le> y"
  shows "rnd x \<le> rnd y"
proof -
  from assms have y0: "0 \<le> y" by simp
  from assms have "expo x \<le> expo y" by (intro expo_mono) simp
  then consider "expo x = expo y" | "expo x < expo y" by linarith
  then show ?thesis
  proof cases
    case 1
    then have q: "quantum x = quantum y" by (simp add: quantum_def)
    from assms(2) have "x / quantum y \<le> y / quantum y" by (simp add: divide_right_mono)
    then have "rhe (x / quantum y) \<le> rhe (y / quantum y)" by (rule rhe_mono)
    then show ?thesis unfolding rnd_def q by (simp add: mult_right_mono)
  next
    case 2
    with expo_range [of y] have "expo x < 128" by linarith
    then have a: "rnd x \<le> pow2 (expo x + 1)" using assms(1) by (intro rnd_le_binade)
    from 2 expo_range [of x] have "- 126 < expo y" by linarith
    then have b: "pow2 (expo y) \<le> rnd y" using y0 by (intro rnd_ge_binade)
    from 2 have "pow2 (expo x + 1) \<le> pow2 (expo y)" by (intro pow2_mono) simp
    with a b show ?thesis by linarith
  qed
qed

lemma rnd_mono: "x \<le> y \<Longrightarrow> rnd x \<le> rnd y"
proof -
  assume le: "x \<le> y"
  consider "0 \<le> x" | "x < 0" "0 \<le> y" | "y < 0" by linarith
  then show ?thesis
  proof cases
    case 1
    then show ?thesis using le by (rule rnd_mono_nonneg)
  next
    case 2
    then have "0 \<le> rnd (- x)" by (intro rnd_nonneg) simp
    then have "rnd x \<le> 0" by (simp add: rnd_neg)
    moreover from 2 have "0 \<le> rnd y" by (intro rnd_nonneg)
    ultimately show ?thesis by simp
  next
    case 3
    with le have "rnd (- y) \<le> rnd (- x)" by (intro rnd_mono_nonneg) simp_all
    then show ?thesis by (simp add: rnd_neg)
  qed
qed

lemma round32_Fin_rnd: "round32 x = Fin r \<Longrightarrow> r = rnd x \<and> - pow2 128 < r \<and> r < pow2 128"
  by (auto simp: round32_def Let_def split: if_splits)

lemma round32_between:
  assumes a: "round32 a = Fin a" and b: "round32 b = Fin b" and "a \<le> x" "x \<le> b"
  shows "round32 x = Fin (rnd x) \<and> a \<le> rnd x \<and> rnd x \<le> b"
proof -
  from a have ra: "rnd a = a" "- pow2 128 < a" using round32_Fin_rnd by fastforce+
  from b have rb: "rnd b = b" "b < pow2 128" using round32_Fin_rnd by fastforce+
  from assms(3) have "rnd a \<le> rnd x" by (rule rnd_mono)
  moreover from assms(4) have "rnd x \<le> rnd b" by (rule rnd_mono)
  ultimately show ?thesis using ra rb by (simp add: round32_def)
qed

lemma round32_mono: "x \<le> y \<Longrightarrow> f32_le (round32 x) (round32 y)"
proof -
  assume "x \<le> y"
  then have "rnd x \<le> rnd y" by (rule rnd_mono)
  moreover have "- pow2 128 < pow2 128" using pow2_pos [of 128] by linarith
  ultimately show ?thesis by (auto simp: round32_def Let_def)
qed

subsection \<open>Rounding is exact on binary32 values\<close>

lemma pow2_nonneg [simp]: "0 \<le> pow2 e"
  using pow2_pos [of e] by linarith

lemma pow2_neq0 [simp]: "pow2 e \<noteq> 0"
  using pow2_pos [of e] by linarith

lemma abs_pow2 [simp]: "\<bar>pow2 e\<bar> = pow2 e"
  by simp

lemma quantum_neq0 [simp]: "quantum x \<noteq> 0"
  using quantum_pos [of x] by linarith

lemma pow2_int: "0 \<le> e \<Longrightarrow> pow2 e = of_int (2 ^ nat e)"
  by (simp add: pow2_def)

lemma rnd_of_int_quantum:
  assumes "x / quantum x = of_int N"
  shows "rnd x = x"
proof -
  have "rnd x = of_int (rhe (of_int N)) * quantum x" by (simp add: rnd_def assms)
  also have "\<dots> = of_int N * quantum x" by (simp only: rhe_of_int)
  also have "\<dots> = x / quantum x * quantum x" by (simp only: assms)
  also have "\<dots> = x" using quantum_pos [of x] by simp
  finally show ?thesis .
qed

lemma rnd_exact:
  assumes M: "\<bar>M\<bar> \<le> 2 ^ 24" and k: "- 149 \<le> k"
  shows "rnd (of_int M * pow2 k) = of_int M * pow2 k"
proof -
  define y where "y = of_int M * pow2 k"
  have absy: "\<bar>y\<bar> = of_int \<bar>M\<bar> * pow2 k"
    by (simp add: y_def abs_mult)
  have "of_int \<bar>M\<bar> \<le> (of_int (2 ^ 24) :: real)" using M by (simp only: of_int_le_iff)
  then have "of_int \<bar>M\<bar> * pow2 k \<le> of_int (2 ^ 24) * pow2 k"
    by (intro mult_right_mono) simp_all
  also have "of_int (2 ^ 24) * pow2 k = pow2 24 * pow2 k" by (simp add: pow2_def)
  also have "\<dots> = pow2 (24 + k)" by (simp only: pow2_add)
  finally have ub: "\<bar>y\<bar> \<le> pow2 (24 + k)" by (simp only: absy)
  have q: "y / quantum y = of_int M * pow2 (k - (expo y - 23))"
    by (simp add: y_def quantum_def pow2_diff)
  have "\<exists>N. y / quantum y = of_int N"
  proof (cases "0 \<le> k - (expo y - 23)")
    case True
    then have "pow2 (k - (expo y - 23)) = of_int (2 ^ nat (k - (expo y - 23)))"
      by (rule pow2_int)
    with q have "y / quantum y = of_int (M * 2 ^ nat (k - (expo y - 23)))" by simp
    then show ?thesis ..
  next
    case False
    then have e: "24 + k \<le> expo y" by simp
    with k have "- 126 < expo y" by simp
    then have lb: "pow2 (expo y) \<le> \<bar>y\<bar>" by (rule expo_lower)
    from e have "pow2 (24 + k) \<le> pow2 (expo y)" by (rule pow2_mono)
    with lb ub have eq: "\<bar>y\<bar> = pow2 (expo y)" by linarith
    have "\<bar>y / quantum y\<bar> = pow2 (expo y) / pow2 (expo y - 23)"
      by (simp add: eq quantum_def)
    also have "\<dots> = pow2 (expo y - (expo y - 23))" by (simp only: pow2_diff)
    also have "\<dots> = of_int (2 ^ 23)" by (simp add: pow2_def)
    finally have a: "\<bar>y / quantum y\<bar> = of_int (2 ^ 23)" .
    show ?thesis
    proof (cases "0 \<le> y / quantum y")
      case True
      with a have "y / quantum y = of_int (2 ^ 23)" by simp
      then show ?thesis ..
    next
      case False
      with a have "y / quantum y = of_int (- (2 ^ 23))" by simp
      then show ?thesis ..
    qed
  qed
  then obtain N where "y / quantum y = of_int N" ..
  then have "rnd y = y" by (rule rnd_of_int_quantum)
  then show ?thesis by (simp only: y_def)
qed

lemma rhe_abs_le:
  assumes "\<bar>x\<bar> \<le> of_int N"
  shows "\<bar>rhe x\<bar> \<le> N"
proof -
  from assms have "x \<le> of_int N" "of_int (- N) \<le> x" by simp_all
  then have "rhe x \<le> rhe (of_int N)" "rhe (of_int (- N)) \<le> rhe x" by (simp_all only: rhe_mono)
  then have "rhe x \<le> N" "- N \<le> rhe x" by (simp_all only: rhe_of_int)
  then show ?thesis by linarith
qed

lemma mantissa_bound: "expo x < 128 \<Longrightarrow> \<bar>rhe (x / quantum x)\<bar> \<le> 2 ^ 24"
proof -
  assume e: "expo x < 128"
  then have "\<bar>x\<bar> < pow2 (expo x + 1)" by (rule expo_upper)
  then have "\<bar>x\<bar> / quantum x \<le> pow2 (expo x + 1) / quantum x"
    by (simp add: divide_right_mono)
  also have "\<dots> = pow2 (expo x + 1 - (expo x - 23))"
    by (simp only: quantum_def pow2_diff)
  also have "\<dots> = of_int (2 ^ 24)" by (simp add: pow2_def)
  finally have "\<bar>x / quantum x\<bar> \<le> of_int (2 ^ 24)" by simp
  then show ?thesis by (rule rhe_abs_le)
qed

lemma rnd_idem: "expo x < 128 \<Longrightarrow> rnd (rnd x) = rnd x"
proof -
  assume e: "expo x < 128"
  have "- 149 \<le> expo x - 23" using expo_range [of x] by linarith
  with mantissa_bound [OF e] have "rnd (of_int (rhe (x / quantum x)) * pow2 (expo x - 23))
      = of_int (rhe (x / quantum x)) * pow2 (expo x - 23)"
    by (rule rnd_exact)
  then show ?thesis by (simp add: rnd_def quantum_def [symmetric])
qed

lemma rnd_overflow: "expo x = 128 \<Longrightarrow> pow2 128 \<le> \<bar>rnd x\<bar>"
proof -
  assume e: "expo x = 128"
  then have "pow2 128 \<le> \<bar>x\<bar>" using expo_lower [of x] by simp
  then consider "pow2 128 \<le> x" | "pow2 128 \<le> - x" by linarith
  then show ?thesis
  proof cases
    case 1
    have "rnd (of_int 1 * pow2 128) = of_int 1 * pow2 128" by (rule rnd_exact) simp_all
    then have "rnd (pow2 128) = pow2 128" by simp
    with rnd_mono [OF 1] show ?thesis by linarith
  next
    case 2
    have "rnd (of_int 1 * pow2 128) = of_int 1 * pow2 128" by (rule rnd_exact) simp_all
    then have "rnd (pow2 128) = pow2 128" by simp
    with rnd_mono [OF 2] show ?thesis by (simp add: rnd_neg)
  qed
qed

lemma round32_idem: "round32 x = Fin r \<Longrightarrow> round32 r = Fin r"
proof -
  assume a: "round32 x = Fin r"
  then have r: "r = rnd x" "- pow2 128 < r" "r < pow2 128" using round32_Fin_rnd by blast+
  have "expo x < 128"
  proof (rule ccontr)
    assume "\<not> expo x < 128"
    with expo_range [of x] have "expo x = 128" by linarith
    then have "pow2 128 \<le> \<bar>rnd x\<bar>" by (rule rnd_overflow)
    with r show False by linarith
  qed
  then have "rnd r = r" unfolding r(1) by (rule rnd_idem)
  with r(2,3) show ?thesis by (simp add: round32_def)
qed

lemma round32_is_f32: "is_f32 (round32 x)"
  by (cases "round32 x") (simp_all add: round32_idem)

lemma round32_exact:
  assumes "\<bar>M\<bar> \<le> 2 ^ 24" "- 149 \<le> k" "\<bar>of_int M * pow2 k\<bar> < pow2 128"
  shows "round32 (of_int M * pow2 k) = Fin (of_int M * pow2 k)"
proof -
  have "rnd (of_int M * pow2 k) = of_int M * pow2 k" using assms(1,2) by (rule rnd_exact)
  moreover from assms(3) have "- pow2 128 < of_int M * pow2 k" "of_int M * pow2 k < pow2 128"
    by linarith+
  ultimately show ?thesis by (simp add: round32_def)
qed

lemma round32_of_int: "\<bar>M\<bar> \<le> 2 ^ 24 \<Longrightarrow> round32 (of_int M) = Fin (of_int M)"
proof -
  assume M: "\<bar>M\<bar> \<le> 2 ^ 24"
  then have "\<bar>real_of_int M\<bar> \<le> of_int (2 ^ 24)" by (simp only: of_int_abs [symmetric] of_int_le_iff)
  also have "\<dots> < pow2 128" by (simp add: pow2_def)
  finally have "\<bar>of_int M * pow2 0\<bar> < pow2 128" by (simp add: pow2_def)
  with M have "round32 (of_int M * pow2 0) = Fin (of_int M * pow2 0)"
    by (intro round32_exact) simp_all
  then show ?thesis by (simp add: pow2_def)
qed

subsection \<open>Particular values and the unit interval\<close>

lemmas f32_eval = round32_def rnd_def quantum_def expo_def bisect_exp.simps pow2_def rhe_def

lemma round32_0 [simp]: "round32 0 = Fin 0"
  using round32_of_int [of 0] by simp

lemma round32_1 [simp]: "round32 1 = Fin 1"
  using round32_of_int [of 1] by simp

lemma round32_numeral [simp]: "numeral w \<le> (2 ^ 24 :: int) \<Longrightarrow> round32 (numeral w) = Fin (numeral w)"
  using round32_of_int [of "numeral w"] by simp

lemma round32_neg_numeral [simp]:
  "numeral w \<le> (2 ^ 24 :: int) \<Longrightarrow> round32 (- numeral w) = Fin (- numeral w)"
  using round32_of_int [of "- numeral w"] by simp

lemma round32_minus_1 [simp]: "round32 (- 1) = Fin (- 1)"
  using round32_of_int [of "- 1"] by simp

lemma f32_of_int_small: "\<bar>k\<bar> \<le> 2 ^ 24 \<Longrightarrow> f32_of_int k = Fin (of_int k)"
  by (simp add: f32_of_int_def round32_of_int)

lemma f32_of_int_255 [simp]: "f32_of_int 255 = Fin 255"
  using f32_of_int_small [of 255] by simp

lemma round32_unit: "0 \<le> x \<Longrightarrow> x \<le> 1 \<Longrightarrow> in_unit (round32 x)"
  using round32_between [of 0 1 x] by simp

lemma in_unit_mul: "in_unit a \<Longrightarrow> in_unit b \<Longrightarrow> in_unit (f32_mul a b)"
  by (cases a; cases b) (simp_all add: round32_unit mult_le_one)

lemma in_unit_compl: "in_unit a \<Longrightarrow> in_unit (f32_sub (Fin 1) a)"
  by (cases a) (simp_all add: f32_sub_def round32_unit)

lemma in_unit_scale:
  assumes "in_unit a"
  shows "\<exists>r. f32_mul a (Fin 255) = Fin r \<and> 0 \<le> r \<and> r \<le> 255"
proof -
  from assms obtain x where a: "a = Fin x" "0 \<le> x" "x \<le> 1" by (cases a) simp_all
  have "round32 (x * 255) = Fin (rnd (x * 255)) \<and> 0 \<le> rnd (x * 255) \<and> rnd (x * 255) \<le> 255"
    using a by (intro round32_between) simp_all
  with a show ?thesis by simp
qed

lemma trunc_nonneg: "0 \<le> x \<Longrightarrow> trunc x = \<lfloor>x\<rfloor>"
  by (simp add: trunc_def)

lemma to_uchar_scale:
  assumes "in_unit a"
  shows "\<exists>w. to_uchar (f32_mul a (Fin 255)) = Some w"
proof -
  from in_unit_scale [OF assms] obtain r where r: "f32_mul a (Fin 255) = Fin r" "0 \<le> r" "r \<le> 255"
    by blast
  then have "0 \<le> \<lfloor>r\<rfloor>" "\<lfloor>r\<rfloor> \<le> 255" by (simp_all add: floor_le_iff)
  with r show ?thesis by (simp add: trunc_nonneg)
qed

subsection \<open>Integer and fractional part of a binary32 value\<close>

lemma round32_Fin_expo:
  assumes "round32 x = Fin r"
  shows "expo x < 128"
proof (rule ccontr)
  assume "\<not> expo x < 128"
  with expo_range [of x] have "expo x = 128" by linarith
  then have "pow2 128 \<le> \<bar>rnd x\<bar>" by (rule rnd_overflow)
  with round32_Fin_rnd [OF assms] show False by linarith
qed

text \<open>A binary32 value is an integer mantissa of at most 24 bits times its quantum.\<close>

lemma f32_decompose:
  assumes "round32 x = Fin x"
  obtains M where "x = of_int M * pow2 (expo x - 23)" "\<bar>M\<bar> \<le> 2 ^ 24"
proof -
  from assms have e: "expo x < 128" by (rule round32_Fin_expo)
  from assms have "rnd x = x" using round32_Fin_rnd by fastforce
  then have "x = of_int (rhe (x / quantum x)) * pow2 (expo x - 23)"
    by (simp add: rnd_def quantum_def)
  then show ?thesis using mantissa_bound [OF e] by (rule that)
qed

lemma frac_exact:
  assumes x: "round32 x = Fin x" and x0: "0 \<le> x"
  shows "round32 (x - of_int \<lfloor>x\<rfloor>) = Fin (x - of_int \<lfloor>x\<rfloor>)"
proof -
  from x obtain M where M: "x = of_int M * pow2 (expo x - 23)" "\<bar>M\<bar> \<le> 2 ^ 24"
    by (rule f32_decompose)
  have M0: "0 \<le> M"
  proof (rule ccontr)
    assume "\<not> 0 \<le> M"
    then have "of_int M < (0::real)" by simp
    then have "of_int M * pow2 (expo x - 23) < 0" by (simp add: mult_neg_pos)
    with M(1) x0 show False by simp
  qed
  show ?thesis
  proof (cases "23 \<le> expo x")
    case True
    then have "pow2 (expo x - 23) = of_int (2 ^ nat (expo x - 23))" by (intro pow2_int) simp
    with M(1) have "x = of_int (M * 2 ^ nat (expo x - 23))" by simp
    then have "x - of_int \<lfloor>x\<rfloor> = 0" by (metis floor_of_int diff_self)
    then show ?thesis by simp
  next
    case False
    define N :: int where "N = 2 ^ nat (23 - expo x)"
    have N0: "0 < N" by (simp add: N_def)
    from False have q: "pow2 (expo x - 23) = 1 / of_int N"
      by (simp add: pow2_def N_def)
    with M(1) have xd: "x = of_int M / of_int N" by simp
    then have fl: "\<lfloor>x\<rfloor> = M div N" by (simp add: floor_divide_of_int_eq)
    have "of_int M = (of_int (M div N * N + M mod N) :: real)" by simp
    also have "\<dots> = of_int (M div N) * of_int N + of_int (M mod N)" by (simp only: of_int_add of_int_mult)
    finally have "x = of_int (M div N) + of_int (M mod N) / of_int N"
      using N0 by (simp add: xd field_simps)
    then have "x - of_int (M div N) = of_int (M mod N) * (1 / of_int N)"
      by simp
    then have fr: "x - of_int \<lfloor>x\<rfloor> = of_int (M mod N) * pow2 (expo x - 23)"
      by (simp only: fl q)
    have m: "0 \<le> M mod N" "M mod N \<le> M"
      using N0 M0 by (simp_all add: zmod_le_nonneg_dividend)
    then have a: "\<bar>M mod N\<bar> \<le> 2 ^ 24" using M(2) by linarith
    have k: "- 149 \<le> expo x - 23" using expo_range [of x] by linarith
    have "\<bar>x - of_int \<lfloor>x\<rfloor>\<bar> < 1" by linarith
    also have "(1::real) < pow2 128" by (simp add: pow2_def)
    finally have "\<bar>of_int (M mod N) * pow2 (expo x - 23)\<bar> < pow2 128" by (simp only: fr)
    with a k have "round32 (of_int (M mod N) * pow2 (expo x - 23))
        = Fin (of_int (M mod N) * pow2 (expo x - 23))" by (rule round32_exact)
    then show ?thesis by (simp only: fr)
  qed
qed

lemma floor_exact:
  assumes x: "round32 x = Fin x" and x0: "0 \<le> x"
  shows "round32 (of_int \<lfloor>x\<rfloor>) = Fin (of_int \<lfloor>x\<rfloor>)"
proof -
  from x obtain M where M: "x = of_int M * pow2 (expo x - 23)" "\<bar>M\<bar> \<le> 2 ^ 24"
    by (rule f32_decompose)
  have M0: "0 \<le> M"
  proof (rule ccontr)
    assume "\<not> 0 \<le> M"
    then have "of_int M < (0::real)" by simp
    then have "of_int M * pow2 (expo x - 23) < 0" by (simp add: mult_neg_pos)
    with M(1) x0 show False by simp
  qed
  show ?thesis
  proof (cases "23 \<le> expo x")
    case True
    then have "pow2 (expo x - 23) = of_int (2 ^ nat (expo x - 23))" by (intro pow2_int) simp
    with M(1) have "x = of_int (M * 2 ^ nat (expo x - 23))" by simp
    then have "of_int \<lfloor>x\<rfloor> = x" by (metis floor_of_int)
    with x show ?thesis by (simp only:)
  next
    case False
    define N :: int where "N = 2 ^ nat (23 - expo x)"
    have N0: "0 < N" by (simp add: N_def)
    from False have "pow2 (expo x - 23) = 1 / of_int N"
      by (simp add: pow2_def N_def)
    with M(1) have "x = of_int M / of_int N" by simp
    then have fl: "\<lfloor>x\<rfloor> = M div N" by (simp add: floor_divide_of_int_eq)
    have "0 \<le> M div N" using M0 N0 by (simp add: pos_imp_zdiv_nonneg_iff)
    moreover have "M div N \<le> M div 1" using M0 N0 by (intro zdiv_mono2) simp_all
    then have "M div N \<le> M" by simp
    ultimately have "\<bar>\<lfloor>x\<rfloor>\<bar> \<le> 2 ^ 24" using M(2) fl by linarith
    then show ?thesis by (rule round32_of_int)
  qed
qed

lemma f32_below_one:
  assumes h: "round32 h = Fin h" and h0: "0 \<le> h" and h1: "h < 1"
  shows "h \<le> 1 - 1 / 2 ^ 24"
proof -
  from h obtain M where M: "h = of_int M * pow2 (expo h - 23)" "\<bar>M\<bar> \<le> 2 ^ 24"
    by (rule f32_decompose)
  show ?thesis
  proof (cases "expo h \<le> - 2")
    case True
    from M(2) have "M \<le> 2 ^ 24" by linarith
    then have "of_int M \<le> (of_int (2 ^ 24) :: real)" by (simp only: of_int_le_iff)
    then have "of_int M * pow2 (expo h - 23) \<le> of_int (2 ^ 24) * pow2 (expo h - 23)"
      by (intro mult_right_mono) simp_all
    also have "of_int (2 ^ 24) * pow2 (expo h - 23) = pow2 24 * pow2 (expo h - 23)"
      by (simp add: pow2_def)
    also have "\<dots> = pow2 (24 + (expo h - 23))" by (simp only: pow2_add)
    also have "\<dots> \<le> pow2 (- 1)" using True by (intro pow2_mono) simp
    also have "\<dots> = 1 / 2" by (simp add: pow2_def)
    finally have "h \<le> 1 / 2" by (simp only: M(1) [symmetric])
    then show ?thesis by simp
  next
    case False
    then have "- 126 < expo h" by simp
    then have "pow2 (expo h) \<le> \<bar>h\<bar>" by (rule expo_lower)
    with h0 h1 have lt: "pow2 (expo h) < 1" by simp
    have "expo h < 0"
    proof (rule ccontr)
      assume "\<not> expo h < 0"
      then have "pow2 0 \<le> pow2 (expo h)" by (intro pow2_mono) simp
      with lt show False by (simp add: pow2_def)
    qed
    with False have e: "expo h = - 1" by simp
    then have q: "pow2 (expo h - 23) = 1 / 2 ^ 24" by (simp add: pow2_def)
    with M(1) h1 have "of_int M < (2 ^ 24 :: real)" by (simp add: field_simps)
    then have "of_int M < (of_int (2 ^ 24) :: real)" by simp
    then have "M < 2 ^ 24" by (simp only: of_int_less_iff)
    then have "M \<le> 2 ^ 24 - 1" by simp
    then have "of_int M \<le> (of_int (2 ^ 24 - 1) :: real)" by (simp only: of_int_le_iff)
    then have "of_int M * (1 / 2 ^ 24) \<le> (of_int (2 ^ 24 - 1) :: real) * (1 / 2 ^ 24)"
      by (intro mult_right_mono) simp_all
    with M(1) q show ?thesis by simp
  qed
qed

lemma rnd_six_below: "rnd ((1 - 1 / 2 ^ 24) * 6) = 6 - 1 / 2 ^ 21"
  by (simp add: f32_eval)

lemma hue_times_six:
  assumes h: "round32 h = Fin h" and h0: "0 \<le> h" and h1: "h < 1"
  shows "\<exists>x. round32 (h * 6) = Fin x \<and> round32 x = Fin x \<and> 0 \<le> x \<and> x < 6"
proof -
  from assms have "h \<le> 1 - 1 / 2 ^ 24" by (rule f32_below_one)
  then have "h * 6 \<le> (1 - 1 / 2 ^ 24) * 6" by simp
  then have "rnd (h * 6) \<le> rnd ((1 - 1 / 2 ^ 24) * 6)" by (rule rnd_mono)
  then have ub: "rnd (h * 6) < 6" by (simp only: rnd_six_below) simp
  from h0 have lb: "0 \<le> rnd (h * 6)" by (intro rnd_nonneg) simp
  have "(6::real) < pow2 128" by (simp add: pow2_def)
  with ub lb have r: "round32 (h * 6) = Fin (rnd (h * 6))" by (simp add: round32_def)
  then have "round32 (rnd (h * 6)) = Fin (rnd (h * 6))" by (rule round32_idem)
  with r ub lb show ?thesis by blast
qed

section \<open>Facts about the HSV conversion\<close>

lemma smod_six: "0 \<le> k \<Longrightarrow> k < 6 \<Longrightarrow> k smod 6 = (k::int)"
  by (simp add: smod_int_alt_def sgn_if)

lemma f32_eq_zero_iff: "f32_eq s (Fin 0) \<longleftrightarrow> s = Fin 0"
  by (cases s) simp_all

text \<open>The cast of the scaled hue and the remainder, where the cast is defined.\<close>

lemma sector_cast:
  assumes x: "round32 x = Fin x" "0 \<le> x" "x < 2 ^ 31"
  shows "to_int (Fin x) = Some \<lfloor>x\<rfloor>"
    and "f32_sub (Fin x) (f32_of_int \<lfloor>x\<rfloor>) = Fin (x - of_int \<lfloor>x\<rfloor>)"
proof -
  from x(2) have "0 \<le> \<lfloor>x\<rfloor>" by simp
  moreover from x(3) have "x < of_int (2 ^ 31)" by simp
  then have "\<lfloor>x\<rfloor> < 2 ^ 31" by (simp only: floor_less_iff)
  ultimately show "to_int (Fin x) = Some \<lfloor>x\<rfloor>" using x(2) by (simp add: trunc_nonneg)
  have "f32_of_int \<lfloor>x\<rfloor> = Fin (of_int \<lfloor>x\<rfloor>)"
    unfolding f32_of_int_def using x(1,2) by (rule floor_exact)
  then show "f32_sub (Fin x) (f32_of_int \<lfloor>x\<rfloor>) = Fin (x - of_int \<lfloor>x\<rfloor>)"
    using frac_exact [OF x(1,2)] by (simp add: f32_sub_def)
qed

lemma hsv_to_rgb_sector:
  assumes s: "\<not> f32_eq s (Fin 0)"
    and hx: "f32_mul h (Fin 6) = Fin x" and x: "round32 x = Fin x" "0 \<le> x" "x < 2 ^ 31"
  shows "hsv_to_rgb h s v =
     (let f = Fin (x - of_int \<lfloor>x\<rfloor>);
          p = f32_mul (f32_mul v (f32_sub (Fin 1) s)) (Fin 255);
          q = f32_mul (f32_mul v (f32_sub (Fin 1) (f32_mul s f))) (Fin 255);
          t = f32_mul (f32_mul v (f32_sub (Fin 1) (f32_mul s (f32_sub (Fin 1) f)))) (Fin 255);
          v = f32_mul v (Fin 255);
          i = \<lfloor>x\<rfloor> smod 6
      in if i = 0 then rgb_cast v t p
         else if i = 1 then rgb_cast q v p
         else if i = 2 then rgb_cast p v t
         else if i = 3 then rgb_cast p q v
         else if i = 4 then rgb_cast t p v
         else rgb_cast v p q)"
  using s by (simp add: hsv_to_rgb_def hx sector_cast [OF x] Let_def del: to_int.simps)

lemma hsv_spec_parts:
  assumes hx: "f32_mul h (Fin 6) = Fin x"
  shows "hsv_sector h = \<lfloor>x\<rfloor>" and "hsv_fraction h = Fin (x - of_int \<lfloor>x\<rfloor>)"
  by (simp_all add: hsv_sector_def hsv_fraction_def hx)

lemma hsv_to_rgb_refines_spec:
  assumes s: "\<not> f32_eq s (Fin 0)"
    and hx: "f32_mul h (Fin 6) = Fin x" and x: "round32 x = Fin x" "0 \<le> x" "x < 6"
  shows "hsv_to_rgb h s v = hsv_to_rgb_spec h s v"
proof -
  from x have fl: "0 \<le> \<lfloor>x\<rfloor>" "\<lfloor>x\<rfloor> < 6" by (simp_all add: floor_less_iff)
  then have sm: "\<lfloor>x\<rfloor> smod 6 = \<lfloor>x\<rfloor>" by (rule smod_six)
  from fl consider "\<lfloor>x\<rfloor> = 0" | "\<lfloor>x\<rfloor> = 1" | "\<lfloor>x\<rfloor> = 2" | "\<lfloor>x\<rfloor> = 3" | "\<lfloor>x\<rfloor> = 4" | "\<lfloor>x\<rfloor> = 5"
    by linarith
  moreover from x have "x < 2 ^ 31" by simp
  note hsv_to_rgb_sector [OF s hx x(1,2) this, of v, unfolded sm]
  ultimately show ?thesis
    by cases (simp_all add: hsv_to_rgb_spec_def hsv_spec_parts [OF hx] sector_table_def
        scale_channels_def Let_def)
qed

lemma rgb_cast_unit:
  assumes "in_unit a" "in_unit b" "in_unit c"
  shows "\<exists>wa wb wc. to_uchar (f32_mul a (Fin 255)) = Some wa \<and>
      to_uchar (f32_mul b (Fin 255)) = Some wb \<and> to_uchar (f32_mul c (Fin 255)) = Some wc \<and>
      rgb_cast (f32_mul a (Fin 255)) (f32_mul b (Fin 255)) (f32_mul c (Fin 255))
        = Some \<lparr>rgb_r = wa, rgb_g = wb, rgb_b = wc\<rparr>"
proof -
  from to_uchar_scale [OF assms(1)] obtain wa where "to_uchar (f32_mul a (Fin 255)) = Some wa" ..
  moreover
  from to_uchar_scale [OF assms(2)] obtain wb where "to_uchar (f32_mul b (Fin 255)) = Some wb" ..
  moreover
  from to_uchar_scale [OF assms(3)] obtain wc where "to_uchar (f32_mul c (Fin 255)) = Some wc" ..
  ultimately show ?thesis by (simp add: rgb_cast_def)
qed

lemma uchar_of_int_mono:
  assumes "0 \<le> j" "j \<le> k" "k \<le> 255"
  shows "(word_of_int j :: 8 word) \<le> word_of_int k"
proof -
  from assms have "take_bit 8 j = j" "take_bit 8 k = k"
    by (simp_all add: take_bit_int_eq_self)
  with assms(2) show ?thesis by (simp add: word_le_def uint_word_of_int_eq)
qed

lemma uchar_scale_mono:
  assumes a: "in_unit a" and b: "in_unit b" and le: "f32_le a b"
    and wa: "to_uchar (f32_mul a (Fin 255)) = Some wa"
    and wb: "to_uchar (f32_mul b (Fin 255)) = Some wb"
  shows "wa \<le> wb"
proof -
  from a obtain x where x: "a = Fin x" "0 \<le> x" "x \<le> 1" by (cases a) simp_all
  from b obtain y where y: "b = Fin y" "0 \<le> y" "y \<le> 1" by (cases b) simp_all
  from le x y have "x * 255 \<le> y * 255" by simp
  then have m: "rnd (x * 255) \<le> rnd (y * 255)" by (rule rnd_mono)
  have rx: "round32 (x * 255) = Fin (rnd (x * 255)) \<and> 0 \<le> rnd (x * 255) \<and> rnd (x * 255) \<le> 255"
    using x by (intro round32_between) simp_all
  have ry: "round32 (y * 255) = Fin (rnd (y * 255)) \<and> 0 \<le> rnd (y * 255) \<and> rnd (y * 255) \<le> 255"
    using y by (intro round32_between) simp_all
  from rx have fx: "0 \<le> \<lfloor>rnd (x * 255)\<rfloor>" by simp
  from ry have fy: "\<lfloor>rnd (y * 255)\<rfloor> \<le> 255" by (simp add: floor_le_iff)
  from m have fm: "\<lfloor>rnd (x * 255)\<rfloor> \<le> \<lfloor>rnd (y * 255)\<rfloor>" by (rule floor_mono)
  from wa x rx have "wa = word_of_int \<lfloor>rnd (x * 255)\<rfloor>"
    by (simp add: trunc_nonneg split: if_splits)
  moreover from wb y ry have "wb = word_of_int \<lfloor>rnd (y * 255)\<rfloor>"
    by (simp add: trunc_nonneg split: if_splits)
  ultimately show ?thesis using uchar_of_int_mono [OF fx fm fy] by simp
qed

lemma rgb_cast_value:
  assumes u: "in_unit a" "in_unit b" "in_unit c" "in_unit v"
    and le: "f32_le a v" "f32_le b v" "f32_le c v"
    and one: "a = v \<or> b = v \<or> c = v"
    and w: "to_uchar (f32_mul v (Fin 255)) = Some w"
  shows "\<exists>col. rgb_cast (f32_mul a (Fin 255)) (f32_mul b (Fin 255)) (f32_mul c (Fin 255))
      = Some col \<and> rgb_value col = w"
proof -
  from rgb_cast_unit [OF u(1,2,3)] obtain wa wb wc where
    ws: "to_uchar (f32_mul a (Fin 255)) = Some wa" "to_uchar (f32_mul b (Fin 255)) = Some wb"
      "to_uchar (f32_mul c (Fin 255)) = Some wc"
    and col: "rgb_cast (f32_mul a (Fin 255)) (f32_mul b (Fin 255)) (f32_mul c (Fin 255))
      = Some \<lparr>rgb_r = wa, rgb_g = wb, rgb_b = wc\<rparr>" by blast
  have "wa \<le> w" using u(1,4) le(1) ws(1) w by (rule uchar_scale_mono)
  moreover have "wb \<le> w" using u(2,4) le(2) ws(2) w by (rule uchar_scale_mono)
  moreover have "wc \<le> w" using u(3,4) le(3) ws(3) w by (rule uchar_scale_mono)
  moreover from one ws w have "wa = w \<or> wb = w \<or> wc = w" by auto
  ultimately have "max wa (max wb wc) = w" by (auto simp: max_def)
  with col show ?thesis by (simp add: rgb_value_def)
qed

lemma f32_le_refl: "in_unit v \<Longrightarrow> f32_le v v"
  by (cases v) simp_all

lemma mul_le_self:
  assumes v: "in_unit v" "is_f32 v" and c: "in_unit c"
  shows "f32_le (f32_mul v c) v"
proof -
  from v obtain x where x: "v = Fin x" "0 \<le> x" "x \<le> 1" "round32 x = Fin x"
    by (cases v) simp_all
  from c obtain y where y: "c = Fin y" "0 \<le> y" "y \<le> 1" by (cases c) simp_all
  from x y have "x * y \<le> x" by (simp add: mult_left_le)
  then have "f32_le (round32 (x * y)) (round32 x)" by (rule round32_mono)
  with x y show ?thesis by simp
qed

text \<open>
  Where the sector cast is defined and saturation and value lie in the unit interval, the
  color is defined and its largest channel is the scaled value.
\<close>

lemma hsv_to_rgb_value_sector:
  assumes hx: "f32_mul h (Fin 6) = Fin x" and xv: "round32 x = Fin x"
    and x: "0 \<le> x" "x < 2 ^ 31" and s: "in_unit s" "s \<noteq> Fin 0"
    and v: "in_unit v" "is_f32 v"
  shows "\<exists>col w. hsv_to_rgb h s v = Some col \<and> to_uchar (f32_mul v (Fin 255)) = Some w \<and>
      rgb_value col = w"
proof -
  from s(2) have s0: "\<not> f32_eq s (Fin 0)" by (simp add: f32_eq_zero_iff)
  define f where "f = Fin (x - of_int \<lfloor>x\<rfloor>)"
  define p where "p = f32_mul v (f32_sub (Fin 1) s)"
  define q where "q = f32_mul v (f32_sub (Fin 1) (f32_mul s f))"
  define t where "t = f32_mul v (f32_sub (Fin 1) (f32_mul s (f32_sub (Fin 1) f)))"
  have fu: "in_unit f" unfolding f_def by simp linarith
  have pu: "in_unit p" unfolding p_def using v(1) s(1) by (intro in_unit_mul in_unit_compl)
  have qu: "in_unit q" unfolding q_def using v(1) s(1) fu by (intro in_unit_mul in_unit_compl)
  have tu: "in_unit t" unfolding t_def using v(1) s(1) fu by (intro in_unit_mul in_unit_compl)
  have pl: "f32_le p v" unfolding p_def using v s(1) by (intro mul_le_self in_unit_compl)
  have ql: "f32_le q v" unfolding q_def using v s(1) fu
    by (intro mul_le_self in_unit_compl in_unit_mul)
  have tl: "f32_le t v" unfolding t_def using v s(1) fu
    by (intro mul_le_self in_unit_compl in_unit_mul)
  have vl: "f32_le v v" using v(1) by (rule f32_le_refl)
  from to_uchar_scale [OF v(1)] obtain w where w: "to_uchar (f32_mul v (Fin 255)) = Some w" ..
  note rc = rgb_cast_value [OF _ _ _ v(1) _ _ _ _ w]
  have c0: "\<exists>col. rgb_cast (f32_mul v (Fin 255)) (f32_mul t (Fin 255)) (f32_mul p (Fin 255))
      = Some col \<and> rgb_value col = w" using v(1) tu pu vl tl pl by (intro rc) simp_all
  have c1: "\<exists>col. rgb_cast (f32_mul q (Fin 255)) (f32_mul v (Fin 255)) (f32_mul p (Fin 255))
      = Some col \<and> rgb_value col = w" using v(1) qu pu vl ql pl by (intro rc) simp_all
  have c2: "\<exists>col. rgb_cast (f32_mul p (Fin 255)) (f32_mul v (Fin 255)) (f32_mul t (Fin 255))
      = Some col \<and> rgb_value col = w" using v(1) tu pu vl tl pl by (intro rc) simp_all
  have c3: "\<exists>col. rgb_cast (f32_mul p (Fin 255)) (f32_mul q (Fin 255)) (f32_mul v (Fin 255))
      = Some col \<and> rgb_value col = w" using v(1) qu pu vl ql pl by (intro rc) simp_all
  have c4: "\<exists>col. rgb_cast (f32_mul t (Fin 255)) (f32_mul p (Fin 255)) (f32_mul v (Fin 255))
      = Some col \<and> rgb_value col = w" using v(1) tu pu vl tl pl by (intro rc) simp_all
  have c5: "\<exists>col. rgb_cast (f32_mul v (Fin 255)) (f32_mul p (Fin 255)) (f32_mul q (Fin 255))
      = Some col \<and> rgb_value col = w" using v(1) qu pu vl ql pl by (intro rc) simp_all
  note unfold = hsv_to_rgb_sector [OF s0 hx xv x, of v, unfolded Let_def,
      folded f_def, folded p_def q_def t_def]
  consider "\<lfloor>x\<rfloor> smod 6 = 0" | "\<lfloor>x\<rfloor> smod 6 = 1" | "\<lfloor>x\<rfloor> smod 6 = 2" | "\<lfloor>x\<rfloor> smod 6 = 3"
    | "\<lfloor>x\<rfloor> smod 6 = 4" | "\<lfloor>x\<rfloor> smod 6 \<notin> {0, 1, 2, 3, 4}" by blast
  then have "\<exists>col. hsv_to_rgb h s v = Some col \<and> rgb_value col = w"
  proof cases
    case 1 with c0 show ?thesis by (simp only: unfold) simp
  next
    case 2 with c1 show ?thesis by (simp only: unfold) simp
  next
    case 3 with c2 show ?thesis by (simp only: unfold) simp
  next
    case 4 with c3 show ?thesis by (simp only: unfold) simp
  next
    case 5 with c4 show ?thesis by (simp only: unfold) simp
  next
    case 6 with c5 show ?thesis by (simp only: unfold) simp
  qed
  with w show ?thesis by blast
qed

lemma hsv_to_rgb_value:
  assumes h: "in_unit h" "is_f32 h" and s: "in_unit s" "s \<noteq> Fin 0"
    and v: "in_unit v" "is_f32 v"
  shows "\<exists>col w. hsv_to_rgb h s v = Some col \<and> to_uchar (f32_mul v (Fin 255)) = Some w \<and>
      rgb_value col = w"
proof -
  from h obtain hr where hr: "h = Fin hr" "0 \<le> hr" "hr \<le> 1" by (cases h) simp_all
  have "round32 (hr * 6) = Fin (rnd (hr * 6)) \<and> 0 \<le> rnd (hr * 6) \<and> rnd (hr * 6) \<le> 6"
    using hr by (intro round32_between) simp_all
  then obtain x where x: "round32 (hr * 6) = Fin x" "0 \<le> x" "x \<le> 6" by blast
  from x(1) have xv: "round32 x = Fin x" by (rule round32_idem)
  from x(3) have x31: "x < 2 ^ 31" by simp
  from hr x have hx: "f32_mul h (Fin 6) = Fin x" by simp
  from hx xv x(2) x31 s v show ?thesis by (rule hsv_to_rgb_value_sector)
qed

lemma hsv_to_rgb_undefined:
  "\<not> f32_eq s (Fin 0) \<Longrightarrow> to_int (f32_mul h (Fin 6)) = None \<Longrightarrow> hsv_to_rgb h s v = None"
  by (simp add: hsv_to_rgb_def)

lemma saturation_value: "round32 (9 / 10) = Fin (15099494 / 16777216)"
  by (simp add: f32_eval)

section \<open>Facts about the post-processing\<close>

lemma round32_two_31: "round32 (2 ^ 31) = Fin (2 ^ 31)" "round32 (- (2 ^ 31)) = Fin (- (2 ^ 31))"
proof -
  have "round32 (of_int (2 ^ 24) * pow2 7) = Fin (of_int (2 ^ 24) * pow2 7)"
    by (rule round32_exact) (simp_all add: pow2_def)
  then show "round32 (2 ^ 31) = Fin (2 ^ 31)" by (simp add: pow2_def)
  have "round32 (of_int (- (2 ^ 24)) * pow2 7) = Fin (of_int (- (2 ^ 24)) * pow2 7)"
    by (rule round32_exact) (simp_all add: pow2_def)
  then show "round32 (- (2 ^ 31)) = Fin (- (2 ^ 31))" by (simp add: pow2_def)
qed

lemma sint_c_int_range: "- (2 ^ 31) \<le> sint (k :: c_int)" "sint k < 2 ^ 31"
  using sint_ge [of k] sint_lt [of k] by simp_all

lemma f32_of_c_int_rnd: "f32_of_c_int k = Fin (rnd (of_int (sint k)))"
proof -
  have "(- (2 ^ 31) :: real) \<le> of_int (sint k)" "of_int (sint k) \<le> (2 ^ 31 :: real)"
    using sint_c_int_range [of k] by (simp_all del: of_int_sint)
  with round32_between [OF round32_two_31(2) round32_two_31(1)]
  show ?thesis by (simp add: f32_of_c_int_def f32_of_int_def del: of_int_sint)
qed

lemma rnd_0 [simp]: "rnd 0 = 0"
  using round32_Fin_rnd [OF round32_0] by simp

lemma rnd_1 [simp]: "rnd 1 = 1"
  using round32_Fin_rnd [OF round32_1] by simp

lemma f32_of_c_int_is_f32: "round32 (rnd (of_int (sint (k :: c_int)))) = Fin (rnd (of_int (sint k)))"
  using f32_of_c_int_rnd [of k, unfolded f32_of_c_int_def f32_of_int_def]
  by (rule round32_idem)

text \<open>The quotient of two converted ints, the first between 0 and the second.\<close>

lemma ratio_unit:
  assumes "0 \<le> sint a" "sint a \<le> sint m" "1 \<le> sint (m :: c_int)"
  shows "\<exists>r. f32_div (f32_of_c_int a) (f32_of_c_int m)
             = Fin r \<and> r = rnd (rnd (of_int (sint a)) / rnd (of_int (sint m))) \<and>
           0 \<le> r \<and> r \<le> 1 \<and> round32 r = Fin r"
proof -
  define A where "A = rnd (of_int (sint a))"
  define M where "M = rnd (of_int (sint m))"
  have A0: "0 \<le> A" unfolding A_def using assms(1) by (intro rnd_nonneg) (simp del: of_int_sint)
  have "rnd 1 \<le> M" unfolding M_def using assms(3) by (intro rnd_mono) (simp del: of_int_sint)
  then have M1: "1 \<le> M" by simp
  have AM: "A \<le> M" unfolding A_def M_def using assms(2)
    by (intro rnd_mono) (simp del: of_int_sint)
  from A0 M1 AM have q: "0 \<le> A / M" "A / M \<le> 1" by simp_all
  then have b: "round32 (A / M) = Fin (rnd (A / M)) \<and> 0 \<le> rnd (A / M) \<and> rnd (A / M) \<le> 1"
    by (intro round32_between) simp_all
  then have "round32 (rnd (A / M)) = Fin (rnd (A / M))" by (intro round32_idem [of "A / M"]) simp
  with b M1 show ?thesis
    by (simp add: f32_of_c_int_rnd A_def [symmetric] M_def [symmetric] del: of_int_sint)
qed

lemma ratio_mono:
  assumes "sint a \<le> sint b" "1 \<le> sint (m :: c_int)"
  shows "rnd (rnd (of_int (sint a)) / rnd (of_int (sint m)))
       \<le> rnd (rnd (of_int (sint b)) / rnd (of_int (sint m)))"
proof -
  have "rnd 1 \<le> rnd (of_int (sint m))" using assms(2)
    by (intro rnd_mono) (simp del: of_int_sint)
  then have "0 \<le> rnd (of_int (sint m))" by (simp del: of_int_sint)
  moreover have "rnd (of_int (sint a)) \<le> rnd (of_int (sint b))"
    using assms(1) by (intro rnd_mono) (simp del: of_int_sint)
  ultimately have "rnd (of_int (sint a)) / rnd (of_int (sint m))
      \<le> rnd (of_int (sint b)) / rnd (of_int (sint m))" by (rule divide_right_mono [rotated])
  then show ?thesis by (rule rnd_mono)
qed

text \<open>The value before \<^verbatim>\<open>pow\<close>: one minus the quotient.\<close>

lemma one_minus_ratio:
  assumes "0 \<le> sint a" "sint a \<le> sint m" "1 \<le> sint (m :: c_int)"
  shows "\<exists>r. f32_sub (Fin 1) (f32_div (f32_of_c_int a) (f32_of_c_int m)) = Fin r \<and>
           r = rnd (1 - rnd (rnd (of_int (sint a)) / rnd (of_int (sint m)))) \<and>
           0 \<le> r \<and> r \<le> 1 \<and> round32 r = Fin r"
proof -
  from ratio_unit [OF assms] obtain q where
    q: "f32_div (f32_of_c_int a) (f32_of_c_int m) = Fin q"
      "q = rnd (rnd (of_int (sint a)) / rnd (of_int (sint m)))" "0 \<le> q" "q \<le> 1" by blast
  then have b: "round32 (1 - q) = Fin (rnd (1 - q)) \<and> 0 \<le> rnd (1 - q) \<and> rnd (1 - q) \<le> 1"
    by (intro round32_between) simp_all
  then have "round32 (rnd (1 - q)) = Fin (rnd (1 - q))" by (intro round32_idem [of "1 - q"]) simp
  with b q show ?thesis by (simp add: f32_sub_def del: of_int_sint)
qed

lemma saturation_unit: "in_unit (round32 (9 / 10))" "round32 (9 / 10) \<noteq> Fin 0"
  by (simp_all add: saturation_value)

lemma pixel_hue_unit:
  assumes "0 \<le> sint r" "sint r < sint (n :: c_int)"
  shows "in_unit (pixel_hue r n)" "is_f32 (pixel_hue r n)"
proof -
  from assms have "sint r \<le> sint n" "1 \<le> sint n" by simp_all
  from ratio_unit [OF assms(1) this] show "in_unit (pixel_hue r n)" "is_f32 (pixel_hue r n)"
    by (auto simp: pixel_hue_def)
qed

lemma sint_nonneg_neq_minus1: "0 \<le> sint (r :: c_int) \<Longrightarrow> r \<noteq> - 1"
  by auto

lemma pow_nat_exponent_one: "pow_exponent_one pow_nat_exponent"
  by (simp add: pow_exponent_one_def pow_nat_exponent_def)

lemma pow_nat_exponent_zero: "pow_zero_base pow_nat_exponent"
  by (simp add: pow_zero_base_def pow_nat_exponent_def)

lemma rgb_value_zero: "rgb_value c = 0 \<Longrightarrow> c = black"
proof -
  assume "rgb_value c = 0"
  then have "max (rgb_r c) (max (rgb_g c) (rgb_b c)) \<le> 0" by (simp add: rgb_value_def)
  then have "rgb_r c \<le> 0" "rgb_g c \<le> 0" "rgb_b c \<le> 0"
    by (simp_all only: max.bounded_iff)
  then have "rgb_r c = 0" "rgb_g c = 0" "rgb_b c = 0" by (simp_all only: word_le_0_iff)
  then show ?thesis by (simp add: black_def)
qed

lemma hsv_to_rgb_red:
  "hsv_to_rgb (Fin 0) (round32 (9 / 10)) (Fin 1) = Some \<lparr>rgb_r = 255, rgb_g = 25, rgb_b = 25\<rparr>"
  by (simp add: saturation_value hsv_to_rgb_def rgb_cast_def f32_sub_def trunc_def
      f32_of_int_def f32_eval)

lemma post_loop_some:
  assumes "post_loop pow n m g rs its npix i img = Some res" "length img = npix"
  shows "length res = npix \<and>
         (\<forall>j. i \<le> j \<and> j < npix \<longrightarrow> pixel_color pow n m g (rs ! j) (its ! j) = Some (res ! j)) \<and>
         (\<forall>j < i. res ! j = img ! j)"
  using assms
proof (induction pow n m g rs its npix i img rule: post_loop.induct)
  case (1 pow n m g rs its npix i img)
  show ?case
  proof (cases "i < npix")
    case False
    with "1.prems" show ?thesis by (auto simp: post_loop.simps)
  next
    case True
    with "1.prems"(1) obtain c where
      c: "pixel_color pow n m g (rs ! i) (its ! i) = Some c"
      and rest: "post_loop pow n m g rs its npix (i + 1) (img[i := c]) = Some res"
      by (subst (asm) post_loop.simps) (auto split: option.splits)
    from "1.prems"(2) have len: "length (img[i := c]) = npix" by simp
    from "1.IH" [OF True c rest len] have
      ih: "length res = npix"
        "\<And>j. i + 1 \<le> j \<Longrightarrow> j < npix \<Longrightarrow> pixel_color pow n m g (rs ! j) (its ! j) = Some (res ! j)"
        "\<And>j. j < i + 1 \<Longrightarrow> res ! j = img[i := c] ! j" by simp_all
    from ih(3) [of i] True "1.prems"(2) have ri: "res ! i = c" by simp
    have "pixel_color pow n m g (rs ! j) (its ! j) = Some (res ! j)" if "i \<le> j" "j < npix" for j
    proof (cases "j = i")
      case True
      with c ri show ?thesis by simp
    next
      case False
      with that have "i + 1 \<le> j" by simp
      then show ?thesis using that(2) by (rule ih(2))
    qed
    moreover have "res ! j = img ! j" if "j < i" for j
      using ih(3) [of j] that by simp
    ultimately show ?thesis using ih(1) by simp
  qed
qed

lemma post_process_example:
  "post_process pow_nat_exponent 3 100 (Fin 4) 2 [0, - 1] [0, 5]
     = Some [\<lparr>rgb_r = 255, rgb_g = 25, rgb_b = 25\<rparr>, black]"
proof -
  have a: "pixel_color pow_nat_exponent 3 100 (Fin 4) 0 0
      = Some \<lparr>rgb_r = 255, rgb_g = 25, rgb_b = 25\<rparr>"
    by (simp add: pixel_color_def pixel_hue_def pixel_value_def f32_of_c_int_def
        f32_of_int_small f32_sub_def pow_nat_exponent_def hsv_to_rgb_red)
  have b: "pixel_color pow_nat_exponent 3 100 (Fin 4) (- 1) 5 = Some black"
    by (simp add: pixel_color_def)
  show ?thesis
    by (simp add: post_process_def post_loop.simps a b numeral_2_eq_2)
qed

lemma round32_two_34: "round32 (2 ^ 34) = Fin (2 ^ 34)"
proof -
  have "round32 (of_int 1 * pow2 34) = Fin (of_int 1 * pow2 34)"
    by (rule round32_exact) (simp_all add: pow2_def)
  then show ?thesis by (simp add: pow2_def)
qed

text \<open>The hue of a root index that is not negative, for a positive degree.\<close>

lemma pixel_hue_nonneg:
  assumes "0 \<le> sint r" "1 \<le> sint (n :: c_int)"
  shows "\<exists>hr x. pixel_hue r n = Fin hr \<and> f32_mul (pixel_hue r n) (Fin 6) = Fin x \<and>
           round32 x = Fin x \<and> 0 \<le> x"
proof -
  define R where "R = rnd (of_int (sint r))"
  define N where "N = rnd (of_int (sint n))"
  have R0: "0 \<le> R" unfolding R_def using assms(1) by (intro rnd_nonneg) (simp del: of_int_sint)
  have "of_int (sint r) \<le> (2 ^ 31 :: real)"
    using sint_c_int_range(2) [of r] by (simp del: of_int_sint)
  then have "R \<le> rnd (2 ^ 31)" unfolding R_def by (rule rnd_mono)
  moreover have "rnd (2 ^ 31) = 2 ^ 31" using round32_Fin_rnd [OF round32_two_31(1)] by simp
  ultimately have R31: "R \<le> 2 ^ 31" by simp
  have "rnd 1 \<le> N" unfolding N_def using assms(2) by (intro rnd_mono) (simp del: of_int_sint)
  then have N1: "1 \<le> N" by simp
  from R0 N1 have q0: "0 \<le> R / N" by simp
  from R0 N1 have "R / N \<le> R" by (simp add: divide_le_eq mult_le_cancel_left1)
  with R31 have q31: "R / N \<le> 2 ^ 31" by simp
  from q0 q31 have h: "round32 (R / N) = Fin (rnd (R / N)) \<and> 0 \<le> rnd (R / N) \<and> rnd (R / N) \<le> 2 ^ 31"
    by (intro round32_between round32_two_31) simp_all
  define hr where "hr = rnd (R / N)"
  from h N1 have hue: "pixel_hue r n = Fin hr"
    by (simp add: pixel_hue_def f32_of_c_int_rnd R_def [symmetric] N_def [symmetric] hr_def
        del: of_int_sint)
  from h have "0 \<le> hr * 6" "hr * 6 \<le> 2 ^ 34" by (simp_all add: hr_def)
  then have x: "round32 (hr * 6) = Fin (rnd (hr * 6)) \<and> 0 \<le> rnd (hr * 6) \<and> rnd (hr * 6) \<le> 2 ^ 34"
    by (intro round32_between round32_two_34) simp_all
  then have "round32 (rnd (hr * 6)) = Fin (rnd (hr * 6))" by (intro round32_idem [of "hr * 6"]) simp
  with x hue show ?thesis by simp
qed

lemma huge_hue_undefined:
  "pixel_color pow_nat_exponent 1 100 (Fin 1) 2147483647 3 = None"
  by (simp add: pixel_color_def pixel_hue_def f32_of_c_int_def f32_of_int_def hsv_to_rgb_def
      saturation_value trunc_def f32_eval)

section \<open>Facts about the root solver\<close>

lemma find_root_range:
  "find_root roots tol z k = - 1 \<or>
   (k \<le> find_root roots tol z k \<and> find_root roots tol z k < k + int (length roots))"
proof (induction roots arbitrary: k)
  case Nil
  show ?case by simp
next
  case (Cons r roots)
  from Cons.IH [of "k + 1"] show ?case by auto
qed

lemma newton_loop_result:
  assumes "0 \<le> iter" "iter \<le> max_iterations"
  shows "(case newton_loop zd n roots max_iterations tol iter z of (res, ex) \<Rightarrow>
           (pr_root_index res = - 1 \<or>
              (0 \<le> pr_root_index res \<and> pr_root_index res < int (length roots))) \<and>
           iter \<le> pr_iteration_count res \<and> pr_iteration_count res \<le> max_iterations)"
  using assms
proof (induction zd n roots max_iterations tol iter z rule: newton_loop.induct)
  case (1 zd n roots max_iterations tol iter z)
  show ?case
  proof (cases "iter < max_iterations")
    case False
    with "1.prems" show ?thesis by (subst newton_loop.simps) simp
  next
    case True
    show ?thesis
    proof (cases "zd (newton_f' n z)")
      case zero: True
      with True "1.prems" show ?thesis by (subst newton_loop.simps) simp
    next
      case nz: False
      define z' where "z' = c_sub z (c_div (newton_f n z) (newton_f' n z))"
      define k where "k = find_root roots tol z' 0"
      show ?thesis
      proof (cases "k = - 1")
        case found: False
        with find_root_range [of roots tol z' 0] have "0 \<le> k" "k < int (length roots)"
          by (simp_all add: k_def)
        with True nz found "1.prems" show ?thesis
          by (subst newton_loop.simps) (simp add: Let_def z'_def [symmetric] k_def [symmetric])
      next
        case none: True
        from True "1.prems" have "0 \<le> iter + 1" "iter + 1 \<le> max_iterations" by simp_all
        with "1.IH" [OF True nz z'_def k_def] none
        have "case newton_loop zd n roots max_iterations tol (iter + 1) z' of (res, ex) \<Rightarrow>
           (pr_root_index res = - 1 \<or>
              (0 \<le> pr_root_index res \<and> pr_root_index res < int (length roots))) \<and>
           iter + 1 \<le> pr_iteration_count res \<and> pr_iteration_count res \<le> max_iterations"
          by simp
        moreover from True nz none have "newton_loop zd n roots max_iterations tol iter z
            = newton_loop zd n roots max_iterations tol (iter + 1) z'"
          by (subst newton_loop.simps) (simp add: Let_def z'_def [symmetric] k_def [symmetric])
        ultimately show ?thesis by (auto split: prod.splits)
      qed
    qed
  qed
qed

lemma newton_loop_exit:
  "(case newton_loop zd n roots max_iterations tol iter z of (res, ex) \<Rightarrow>
      (ex = Converged \<longleftrightarrow> pr_root_index res \<noteq> - 1) \<and>
      (ex = BudgetExhausted \<longrightarrow> pr_iteration_count res = max_iterations))"
proof (induction zd n roots max_iterations tol iter z rule: newton_loop.induct)
  case (1 zd n roots max_iterations tol iter z)
  show ?case
  proof (cases "iter < max_iterations")
    case False
    then show ?thesis by (subst newton_loop.simps) simp
  next
    case True
    show ?thesis
    proof (cases "zd (newton_f' n z)")
      case zero: True
      with True show ?thesis by (subst newton_loop.simps) simp
    next
      case nz: False
      define z' where "z' = c_sub z (c_div (newton_f n z) (newton_f' n z))"
      define k where "k = find_root roots tol z' 0"
      show ?thesis
      proof (cases "k = - 1")
        case found: False
        with True nz show ?thesis
          by (subst newton_loop.simps) (simp add: Let_def z'_def [symmetric] k_def [symmetric])
      next
        case none: True
        from "1.IH" [OF True nz z'_def k_def] none
        have "case newton_loop zd n roots max_iterations tol (iter + 1) z' of (res, ex) \<Rightarrow>
            (ex = Converged \<longleftrightarrow> pr_root_index res \<noteq> - 1) \<and>
            (ex = BudgetExhausted \<longrightarrow> pr_iteration_count res = max_iterations)"
          by simp
        moreover from True nz none have "newton_loop zd n roots max_iterations tol iter z
            = newton_loop zd n roots max_iterations tol (iter + 1) z'"
          by (subst newton_loop.simps) (simp add: Let_def z'_def [symmetric] k_def [symmetric])
        ultimately show ?thesis by simp
      qed
    qed
  qed
qed

lemmas c_eval = c_sub_def c_mul_def c_div_def c_norm_sq_def newton_f_def newton_f'_def
  f32_sub_def f32_of_int_small

lemma center_pixel:
  "pixel_to_complex (Fin (- 5)) (Fin 5) (Fin (- 5)) (Fin 5) 3 3 1 1 = \<lparr>c_re = Fin 0, c_im = Fin 0\<rparr>"
  by (simp add: pixel_to_complex_def f32_of_c_int_def f32_of_int_small f32_sub_def f32_eval)

lemma tolerance_sq_value: "round32 (1 / 10 ^ 12) = Fin (9223372 / 2 ^ 63)"
  by (simp add: f32_eval)

lemma solver_example_converged:
  "root_solver exactly_zero (Fin (- 5)) (Fin 5) (Fin (- 5)) (Fin 5) 3 3 1
     [\<lparr>c_re = Fin 1, c_im = Fin 0\<rparr>] 100 (round32 (1 / 10 ^ 12)) 1 1
   = (\<lparr>pr_root_index = 0, pr_iteration_count = 1\<rparr>, Converged)"
  by (simp add: root_solver_def center_pixel tolerance_sq_value [simplified]
      newton_loop.simps [of _ _ _ _ _ 0] exactly_zero_def c_eval Let_def)

lemma solver_example_zero:
  "root_solver exactly_zero (Fin (- 5)) (Fin 5) (Fin (- 5)) (Fin 5) 3 3 2
     [\<lparr>c_re = Fin 1, c_im = Fin 0\<rparr>, \<lparr>c_re = Fin (- 1), c_im = Fin 0\<rparr>] 100
     (round32 (1 / 10 ^ 12)) 1 1
   = (\<lparr>pr_root_index = - 1, pr_iteration_count = 0\<rparr>, ZeroDerivative)"
  by (simp add: root_solver_def center_pixel newton_loop.simps [of _ _ _ _ _ 0]
      exactly_zero_def c_eval Let_def)

lemma sint_pred: "1 \<le> sint (w :: c_int) \<Longrightarrow> sint (w - 1) = sint w - 1"
proof -
  assume a: "1 \<le> sint w"
  have "sint (w - 1) = signed_take_bit 31 (sint w - sint (1 :: c_int))"
    using sint_word_ariths(2) [of w 1] by simp
  also have "sint (1 :: c_int) = 1" by simp
  also have "signed_take_bit 31 (sint w - 1) = sint w - 1"
    using a sint_c_int_range [of w] by (intro signed_take_bit_int_eq_self) simp_all
  finally show ?thesis .
qed

text \<open>One axis of the pixel mapping over the viewport \<open>[-5, 5]\<close>.\<close>

lemma axis_in_viewport:
  assumes "0 \<le> sint p" "sint p \<le> sint d" "1 \<le> sint (d :: c_int)"
  shows "\<exists>x. f32_add (Fin (- 5))
              (f32_mul (f32_div (f32_of_c_int p) (f32_of_c_int d)) (f32_sub (Fin 5) (Fin (- 5))))
            = Fin x \<and> - 5 \<le> x \<and> x \<le> 5 \<and> (p = 0 \<longrightarrow> x = - 5) \<and> (p = d \<longrightarrow> x = 5)"
proof -
  from ratio_unit [OF assms] obtain r where
    r: "f32_div (f32_of_c_int p) (f32_of_c_int d) = Fin r"
      "r = rnd (rnd (of_int (sint p)) / rnd (of_int (sint d)))" "0 \<le> r" "r \<le> 1" by blast
  have w: "f32_sub (Fin 5) (Fin (- 5)) = Fin 10" by (simp add: f32_sub_def)
  have t: "round32 (r * 10) = Fin (rnd (r * 10)) \<and> 0 \<le> rnd (r * 10) \<and> rnd (r * 10) \<le> 10"
    using r(3,4) by (intro round32_between) simp_all
  define t where "t = rnd (r * 10)"
  from t have t': "round32 (r * 10) = Fin t" "0 \<le> t" "t \<le> 10" by (simp_all add: t_def)
  have x: "round32 (- 5 + t) = Fin (rnd (- 5 + t)) \<and> - 5 \<le> rnd (- 5 + t) \<and> rnd (- 5 + t) \<le> 5"
    using t'(2,3) by (intro round32_between) simp_all
  have eq: "f32_add (Fin (- 5))
      (f32_mul (f32_div (f32_of_c_int p) (f32_of_c_int d)) (f32_sub (Fin 5) (Fin (- 5))))
      = Fin (rnd (- 5 + t))" using x by (simp add: r(1) w t'(1))
  have r10: "rnd 10 = 10" using round32_Fin_rnd [of 10 10] by simp
  have r5: "rnd 5 = 5" using round32_Fin_rnd [of 5 5] by simp
  have rm5: "rnd (- 5) = - 5" using round32_Fin_rnd [of "- 5" "- 5"] by simp
  have lo: "rnd (- 5 + t) = - 5" if "p = 0"
  proof -
    from that have "r = 0" by (simp add: r(2))
    then have "t = 0" by (simp add: t_def)
    then show ?thesis by (simp add: rm5)
  qed
  have hi: "rnd (- 5 + t) = 5" if "p = d"
  proof -
    have "rnd 1 \<le> rnd (of_int (sint d))" using assms(3)
      by (intro rnd_mono) (simp del: of_int_sint)
    then have "rnd (of_int (sint d)) \<noteq> 0" by (simp del: of_int_sint)
    with that have "r = 1" by (simp add: r(2) del: of_int_sint)
    then have "t = 10" by (simp add: t_def r10)
    then show ?thesis by (simp add: r5)
  qed
  from eq x lo hi show ?thesis by blast
qed

section \<open>Facts about the roots of unity\<close>

subsection \<open>The error of one rounding\<close>

lemma rhe_error: "\<bar>of_int (rhe x) - x\<bar> \<le> 1 / 2"
proof -
  have "of_int \<lfloor>x\<rfloor> \<le> x" "x < of_int \<lfloor>x\<rfloor> + 1" by linarith+
  then show ?thesis unfolding rhe_def Let_def by auto
qed

lemma scaled_rhe_error:
  assumes "0 < q"
  shows "\<bar>of_int (rhe (x / q)) * q - x\<bar> \<le> q / 2"
proof -
  have "of_int (rhe (x / q)) * q - x = (of_int (rhe (x / q)) - x / q) * q"
    using assms by (simp add: algebra_simps)
  then have "\<bar>of_int (rhe (x / q)) * q - x\<bar> = \<bar>of_int (rhe (x / q)) - x / q\<bar> * q"
    using assms by (simp add: abs_mult)
  also have "\<dots> \<le> 1 / 2 * q"
    using assms by (intro mult_right_mono rhe_error) simp
  finally show ?thesis by simp
qed

lemma rnd_error: "\<bar>rnd x - x\<bar> \<le> quantum x / 2"
  unfolding rnd_def by (rule scaled_rhe_error) simp

lemma expo_below:
  assumes "\<bar>x\<bar> < pow2 e" "- 126 \<le> e - 1"
  shows "expo x \<le> e - 1"
proof (rule ccontr)
  assume "\<not> expo x \<le> e - 1"
  then have ge: "e \<le> expo x" by simp
  with assms(2) have "- 126 < expo x" by simp
  then have "pow2 (expo x) \<le> \<bar>x\<bar>" by (rule expo_lower)
  moreover from ge have "pow2 e \<le> pow2 (expo x)" by (rule pow2_mono)
  ultimately show False using assms(1) by linarith
qed

lemma round32_near:
  assumes "\<bar>x\<bar> < 2"
  shows "\<exists>r. round32 x = Fin r \<and> \<bar>r - x\<bar> \<le> 1 / 2 ^ 24"
proof -
  from assms have "\<bar>x\<bar> < pow2 1" by (simp add: pow2_def)
  then have "expo x \<le> 1 - 1" by (rule expo_below) simp
  then have "pow2 (expo x - 23) \<le> pow2 (- 23)" by (intro pow2_mono) simp
  then have "quantum x \<le> 1 / 2 ^ 23" by (simp add: quantum_def pow2_def)
  with rnd_error [of x] have err: "\<bar>rnd x - x\<bar> \<le> 1 / 2 ^ 24" by simp
  note err
  moreover have "(1 :: real) / 2 ^ 24 \<le> 1" by simp
  ultimately have "\<bar>rnd x\<bar> < 3" using assms by linarith
  moreover have "(3 :: real) < pow2 128" by (simp add: pow2_def)
  ultimately have "- pow2 128 < rnd x" "rnd x < pow2 128" by linarith+
  then have "round32 x = Fin (rnd x)" by (simp add: round32_def)
  with err show ?thesis by blast
qed

subsection \<open>Double precision\<close>

lemma quantum64_pos [simp]: "0 < quantum64 x"
  by (simp add: quantum64_def)

lemma quantum64_neq0 [simp]: "quantum64 x \<noteq> 0"
  using quantum64_pos [of x] by linarith

lemma rnd64_error: "\<bar>rnd64 x - x\<bar> \<le> quantum64 x / 2"
  unfolding rnd64_def by (rule scaled_rhe_error) simp

lemma expo64_range: "- 1022 \<le> expo64 x \<and> expo64 x \<le> 1024"
  unfolding expo64_def using bisect_exp_range [of "- 1022" 1024] by simp

lemma expo64_lower: "- 1022 < expo64 x \<Longrightarrow> pow2 (expo64 x) \<le> \<bar>x\<bar>"
  unfolding expo64_def by (rule bisect_exp_lower)

lemma expo64_upper: "expo64 x < 1024 \<Longrightarrow> \<bar>x\<bar> < pow2 (expo64 x + 1)"
  unfolding expo64_def by (rule bisect_exp_upper) simp_all

lemma expo64_below:
  assumes "\<bar>x\<bar> < pow2 e" "- 1022 \<le> e - 1"
  shows "expo64 x \<le> e - 1"
proof (rule ccontr)
  assume "\<not> expo64 x \<le> e - 1"
  then have ge: "e \<le> expo64 x" by simp
  with assms(2) have "- 1022 < expo64 x" by simp
  then have "pow2 (expo64 x) \<le> \<bar>x\<bar>" by (rule expo64_lower)
  moreover from ge have "pow2 e \<le> pow2 (expo64 x)" by (rule pow2_mono)
  ultimately show False using assms(1) by linarith
qed

lemma round64_near:
  assumes "\<bar>x\<bar> < 2"
  shows "\<exists>r. round64 x = DFin r \<and> \<bar>r - x\<bar> \<le> 1 / 2 ^ 53"
proof -
  from assms have "\<bar>x\<bar> < pow2 1" by (simp add: pow2_def)
  then have "expo64 x \<le> 1 - 1" by (rule expo64_below) simp
  then have "pow2 (expo64 x - 52) \<le> pow2 (- 52)" by (intro pow2_mono) simp
  then have "quantum64 x \<le> 1 / 2 ^ 52" by (simp add: quantum64_def pow2_def)
  with rnd64_error [of x] have err: "\<bar>rnd64 x - x\<bar> \<le> 1 / 2 ^ 53" by simp
  note err
  moreover have "(1 :: real) / 2 ^ 53 \<le> 1" by simp
  ultimately have "\<bar>rnd64 x\<bar> < 3" using assms by linarith
  moreover have "(3 :: real) < pow2 1024" by (simp add: pow2_def)
  ultimately have "- pow2 1024 < rnd64 x" "rnd64 x < pow2 1024" by linarith+
  then have "round64 x = DFin (rnd64 x)" by (simp add: round64_def)
  with err show ?thesis by blast
qed

lemma rnd64_of_int_quantum:
  assumes "x / quantum64 x = of_int N"
  shows "rnd64 x = x"
proof -
  have "rnd64 x = of_int (rhe (of_int N)) * quantum64 x" by (simp add: rnd64_def assms)
  also have "\<dots> = of_int N * quantum64 x" by (simp only: rhe_of_int)
  also have "\<dots> = x / quantum64 x * quantum64 x" by (simp only: assms)
  also have "\<dots> = x" by simp
  finally show ?thesis .
qed

lemma rnd64_exact:
  assumes M: "\<bar>M\<bar> \<le> 2 ^ 53" and k: "- 1074 \<le> k"
  shows "rnd64 (of_int M * pow2 k) = of_int M * pow2 k"
proof -
  define y where "y = of_int M * pow2 k"
  have absy: "\<bar>y\<bar> = of_int \<bar>M\<bar> * pow2 k"
    by (simp add: y_def abs_mult)
  have "of_int \<bar>M\<bar> \<le> (of_int (2 ^ 53) :: real)" using M by (simp only: of_int_le_iff)
  then have "of_int \<bar>M\<bar> * pow2 k \<le> of_int (2 ^ 53) * pow2 k"
    by (intro mult_right_mono) simp_all
  also have "of_int (2 ^ 53) * pow2 k = pow2 53 * pow2 k" by (simp add: pow2_def)
  also have "\<dots> = pow2 (53 + k)" by (simp only: pow2_add)
  finally have ub: "\<bar>y\<bar> \<le> pow2 (53 + k)" by (simp only: absy)
  have q: "y / quantum64 y = of_int M * pow2 (k - (expo64 y - 52))"
    by (simp add: y_def quantum64_def pow2_diff)
  have "\<exists>N. y / quantum64 y = of_int N"
  proof (cases "0 \<le> k - (expo64 y - 52)")
    case True
    then have "pow2 (k - (expo64 y - 52)) = of_int (2 ^ nat (k - (expo64 y - 52)))"
      by (rule pow2_int)
    with q have "y / quantum64 y = of_int (M * 2 ^ nat (k - (expo64 y - 52)))" by simp
    then show ?thesis ..
  next
    case False
    then have e: "53 + k \<le> expo64 y" by simp
    with k have "- 1022 < expo64 y" by simp
    then have lb: "pow2 (expo64 y) \<le> \<bar>y\<bar>" by (rule expo64_lower)
    from e have "pow2 (53 + k) \<le> pow2 (expo64 y)" by (rule pow2_mono)
    with lb ub have eq: "\<bar>y\<bar> = pow2 (expo64 y)" by linarith
    have "\<bar>y / quantum64 y\<bar> = pow2 (expo64 y) / pow2 (expo64 y - 52)"
      by (simp add: eq quantum64_def)
    also have "\<dots> = pow2 (expo64 y - (expo64 y - 52))" by (simp only: pow2_diff)
    also have "\<dots> = of_int (2 ^ 52)" by (simp add: pow2_def)
    finally have a: "\<bar>y / quantum64 y\<bar> = of_int (2 ^ 52)" .
    show ?thesis
    proof (cases "0 \<le> y / quantum64 y")
      case True
      with a have "y / quantum64 y = of_int (2 ^ 52)" by simp
      then show ?thesis ..
    next
      case False
      with a have "y / quantum64 y = of_int (- (2 ^ 52))" by simp
      then show ?thesis ..
    qed
  qed
  then obtain N where "y / quantum64 y = of_int N" ..
  then have "rnd64 y = y" by (rule rnd64_of_int_quantum)
  then show ?thesis by (simp only: y_def)
qed

lemma round64_exact:
  assumes "\<bar>M\<bar> \<le> 2 ^ 53" "- 1074 \<le> k" "\<bar>of_int M * pow2 k\<bar> < pow2 1024"
  shows "round64 (of_int M * pow2 k) = DFin (of_int M * pow2 k)"
proof -
  have "rnd64 (of_int M * pow2 k) = of_int M * pow2 k" using assms(1,2) by (rule rnd64_exact)
  moreover from assms(3) have "- pow2 1024 < of_int M * pow2 k" "of_int M * pow2 k < pow2 1024"
    by linarith+
  ultimately show ?thesis by (simp add: round64_def)
qed

lemma round64_0 [simp]: "round64 0 = DFin 0"
  using round64_exact [of 0 0] by (simp add: pow2_def)

lemma round64_1 [simp]: "round64 1 = DFin 1"
  using round64_exact [of 1 0] by (simp add: pow2_def)

lemma f64_of_c_int_exact: "f64_of_c_int k = DFin (of_int (sint k))"
proof -
  have M: "\<bar>sint k\<bar> \<le> 2 ^ 53" using sint_c_int_range [of k] by simp
  then have "\<bar>real_of_int (sint k)\<bar> \<le> of_int (2 ^ 53)"
    by (simp only: of_int_abs [symmetric] of_int_le_iff)
  also have "\<dots> < pow2 1024" by (simp add: pow2_def)
  finally have "\<bar>of_int (sint k) * pow2 0\<bar> < pow2 1024" by (simp add: pow2_def del: of_int_sint)
  with M have "round64 (of_int (sint k) * pow2 0) = DFin (of_int (sint k) * pow2 0)"
    by (intro round64_exact) simp_all
  then show ?thesis by (simp add: pow2_def f64_of_c_int_def del: of_int_sint)
qed

lemma two_pi_exact: "f64_mul (DFin 2) M_PI = DFin (884279719003555 / 2 ^ 47)"
proof -
  have "round64 (of_int 884279719003555 * pow2 (- 47)) = DFin (of_int 884279719003555 * pow2 (- 47))"
    by (rule round64_exact) (simp_all add: pow2_def)
  then show ?thesis by (simp add: M_PI_def pow2_def)
qed

lemma round64_relative:
  assumes "x = 0 \<or> pow2 (- 1022) \<le> \<bar>x\<bar>" "\<bar>x\<bar> \<le> 2 ^ 64"
  shows "\<exists>r. round64 x = DFin r \<and> \<bar>r - x\<bar> \<le> \<bar>x\<bar> / 2 ^ 53"
proof (cases "x = 0")
  case True
  have "rhe (of_int 0) = 0" by (simp only: rhe_of_int)
  then have "rnd64 0 = 0" by (simp add: rnd64_def)
  moreover have "\<not> pow2 1024 \<le> 0" using pow2_pos [of 1024] by linarith
  ultimately show ?thesis using True by (simp add: round64_def)
next
  case False
  with assms(1) have big: "pow2 (- 1022) \<le> \<bar>x\<bar>" by simp
  have "pow2 (expo64 x) \<le> \<bar>x\<bar>"
  proof (cases "- 1022 < expo64 x")
    case True
    then show ?thesis by (rule expo64_lower)
  next
    case False
    with expo64_range [of x] have "expo64 x = - 1022" by linarith
    with big show ?thesis by simp
  qed
  moreover have "quantum64 x = pow2 (expo64 x) / 2 ^ 52"
    by (simp add: quantum64_def pow2_diff) (simp add: pow2_def)
  ultimately have "quantum64 x / 2 \<le> \<bar>x\<bar> / 2 ^ 53" by simp
  with rnd64_error [of x] have err: "\<bar>rnd64 x - x\<bar> \<le> \<bar>x\<bar> / 2 ^ 53" by linarith
  have "\<bar>x\<bar> / 2 ^ 53 \<le> \<bar>x\<bar>" by (simp add: field_simps)
  with err assms(2) have "\<bar>rnd64 x\<bar> \<le> 2 * 2 ^ 64" by linarith
  moreover have "(2 * 2 ^ 64 :: real) < pow2 1024" by (simp add: pow2_def)
  ultimately have "- pow2 1024 < rnd64 x" "rnd64 x < pow2 1024" by linarith+
  then have "round64 x = DFin (rnd64 x)" by (simp add: round64_def)
  with err show ?thesis by blast
qed

subsection \<open>An enclosure of pi\<close>

text \<open>
  The partial sums of the arctangent series enclose the arctangent, and Machin's formula
  turns two of them into an enclosure of pi: \<^verbatim>\<open>M_PI\<close> lies below pi, by less than \<open>2^-52\<close>.
\<close>

lemma arctan_terms:
  fixes x :: real
  assumes "0 \<le> x" "x \<le> 1"
  shows "(\<lambda>n. 1 / real (n * 2 + 1) * x ^ (n * 2 + 1)) \<longlonglongrightarrow> 0"
    and "\<And>n. 0 \<le> 1 / real (n * 2 + 1) * x ^ (n * 2 + 1)"
    and "\<And>n. 1 / real (Suc n * 2 + 1) * x ^ (Suc n * 2 + 1) \<le> 1 / real (n * 2 + 1) * x ^ (n * 2 + 1)"
proof -
  from assms show "(\<lambda>n. 1 / real (n * 2 + 1) * x ^ (n * 2 + 1)) \<longlonglongrightarrow> 0"
    by (intro zeroseq_arctan_series) simp
  from assms show "0 \<le> 1 / real (n * 2 + 1) * x ^ (n * 2 + 1)" for n by simp
  show "1 / real (Suc n * 2 + 1) * x ^ (Suc n * 2 + 1) \<le> 1 / real (n * 2 + 1) * x ^ (n * 2 + 1)" for n
  proof (rule mult_mono)
    show "1 / real (Suc n * 2 + 1) \<le> 1 / real (n * 2 + 1)" by (simp add: field_simps)
    from assms show "x ^ (Suc n * 2 + 1) \<le> x ^ (n * 2 + 1)" by (intro power_decreasing) simp_all
    show "0 \<le> 1 / real (n * 2 + 1)" by simp
    from assms show "0 \<le> x ^ (Suc n * 2 + 1)" by simp
  qed
qed

lemma arctan_lower:
  fixes x :: real
  assumes "0 \<le> x" "x \<le> 1"
  shows "(\<Sum>i<2 * n. (- 1) ^ i * (1 / real (i * 2 + 1) * x ^ (i * 2 + 1))) \<le> arctan x"
proof -
  from assms have "arctan x = (\<Sum>k. (- 1) ^ k * (1 / real (k * 2 + 1) * x ^ (k * 2 + 1)))"
    by (intro arctan_series) simp
  with summable_Leibniz'(2) [OF arctan_terms [OF assms], of n] show ?thesis by simp
qed

lemma arctan_upper:
  fixes x :: real
  assumes "0 \<le> x" "x \<le> 1"
  shows "arctan x \<le> (\<Sum>i<2 * n + 1. (- 1) ^ i * (1 / real (i * 2 + 1) * x ^ (i * 2 + 1)))"
proof -
  from assms have "arctan x = (\<Sum>k. (- 1) ^ k * (1 / real (k * 2 + 1) * x ^ (k * 2 + 1)))"
    by (intro arctan_series) simp
  with summable_Leibniz'(4) [OF arctan_terms [OF assms], of n] show ?thesis by simp
qed

lemma pi_lower: "884279719003555 / 2 ^ 48 \<le> pi"
proof -
  have a: "(\<Sum>i<2 * 6. (- 1) ^ i * (1 / real (i * 2 + 1) * (1 / 5) ^ (i * 2 + 1))) \<le> arctan (1 / 5)"
    by (rule arctan_lower) simp_all
  have b: "arctan (1 / 239) \<le> (\<Sum>i<2 * 2 + 1. (- 1) ^ i * (1 / real (i * 2 + 1) * (1 / 239) ^ (i * 2 + 1)))"
    by (rule arctan_upper) simp_all
  have "pi = 16 * arctan (1 / 5) - 4 * arctan (1 / 239)" using machin by simp
  moreover have "(884279719003555 / 2 ^ 48 :: real) \<le>
      16 * (\<Sum>i<2 * 6. (- 1) ^ i * (1 / real (i * 2 + 1) * (1 / 5) ^ (i * 2 + 1)))
      - 4 * (\<Sum>i<2 * 2 + 1. (- 1) ^ i * (1 / real (i * 2 + 1) * (1 / 239) ^ (i * 2 + 1)))"
    by (simp add: eval_nat_numeral sum.lessThan_Suc)
  ultimately show ?thesis using a b by linarith
qed

lemma pi_upper: "pi \<le> 884279719003555 / 2 ^ 48 + 1 / 2 ^ 52"
proof -
  have a: "arctan (1 / 5) \<le> (\<Sum>i<2 * 6 + 1. (- 1) ^ i * (1 / real (i * 2 + 1) * (1 / 5) ^ (i * 2 + 1)))"
    by (rule arctan_upper) simp_all
  have b: "(\<Sum>i<2 * 2. (- 1) ^ i * (1 / real (i * 2 + 1) * (1 / 239) ^ (i * 2 + 1))) \<le> arctan (1 / 239)"
    by (rule arctan_lower) simp_all
  have "pi = 16 * arctan (1 / 5) - 4 * arctan (1 / 239)" using machin by simp
  moreover have "16 * (\<Sum>i<2 * 6 + 1. (- 1) ^ i * (1 / real (i * 2 + 1) * (1 / 5) ^ (i * 2 + 1)))
      - 4 * (\<Sum>i<2 * 2. (- 1) ^ i * (1 / real (i * 2 + 1) * (1 / 239) ^ (i * 2 + 1)))
      \<le> (884279719003555 / 2 ^ 48 + 1 / 2 ^ 52 :: real)"
    by (simp add: eval_nat_numeral sum.lessThan_Suc)
  ultimately show ?thesis using a b by linarith
qed

subsection \<open>The angle of a root\<close>

lemma cos_lipschitz: "\<bar>cos a - cos b\<bar> \<le> \<bar>a - b\<bar>" for a b :: real
proof -
  have "\<bar>cos a - cos b\<bar> = 2 * \<bar>sin ((a + b) / 2)\<bar> * \<bar>sin ((b - a) / 2)\<bar>"
    by (simp add: cos_diff_cos abs_mult)
  also have "\<dots> \<le> 2 * 1 * \<bar>(b - a) / 2\<bar>"
    by (intro mult_mono abs_sin_le_one abs_sin_x_le_abs_x) simp_all
  finally show ?thesis by simp
qed

lemma sin_lipschitz: "\<bar>sin a - sin b\<bar> \<le> \<bar>a - b\<bar>" for a b :: real
proof -
  have "\<bar>sin a - sin b\<bar> = 2 * \<bar>sin ((a - b) / 2)\<bar> * \<bar>cos ((a + b) / 2)\<bar>"
    by (simp add: sin_diff_sin abs_mult)
  also have "\<dots> \<le> 2 * \<bar>(a - b) / 2\<bar> * 1"
    by (intro mult_mono abs_cos_le_one abs_sin_x_le_abs_x) simp_all
  finally show ?thesis by simp
qed

lemma root_angle_near:
  assumes k0: "0 \<le> sint k" and kn: "sint k < sint (n :: c_int)"
  shows "\<exists>a. root_angle k n = DFin a \<and>
           \<bar>a - 2 * pi * real_of_int (sint k) / real_of_int (sint n)\<bar> \<le> 1 / 2 ^ 48"
proof -
  define K where "K = real_of_int (sint k)"
  define N where "N = real_of_int (sint n)"
  define T :: real where "T = 884279719003555 / 2 ^ 47"
  define u :: real where "u = 1 / 2 ^ 53"
  have K0: "0 \<le> K" using k0 by (simp add: K_def del: of_int_sint)
  from kn have "sint k + 1 \<le> sint n" by simp
  then have "real_of_int (sint k + 1) \<le> real_of_int (sint n)" by (simp only: of_int_le_iff)
  then have KN: "K + 1 \<le> N" by (simp add: K_def N_def del: of_int_sint)
  have "sint n \<le> 2 ^ 31" using sint_c_int_range(2) [of n] by simp
  then have "real_of_int (sint n) \<le> real_of_int (2 ^ 31)" by (simp only: of_int_le_iff)
  then have N31: "N \<le> 2 ^ 31" by (simp add: N_def del: of_int_sint)
  from K0 KN have N1: "1 \<le> N" by linarith
  have T: "6 \<le> T" "T \<le> 7" by (simp_all add: T_def)
  have u: "0 < u" "u \<le> 1 / 8" "32 * u = 1 / 2 ^ 48" by (simp_all add: u_def)
  have uh: "u \<le> 1 / 2" using u(2) by linarith
  define q where "q = K / N"
  have q: "0 \<le> q" "q \<le> 1" using K0 KN N1 by (simp_all add: q_def)
  have "T \<le> 2 * pi" "2 * pi \<le> T + 4 * u"
    using pi_lower pi_upper by (simp_all add: T_def u_def)
  then have pi2: "\<bar>T - 2 * pi\<bar> \<le> 4 * u" by linarith
  have ra: "root_angle k n = f64_div (round64 (T * K)) (DFin N)"
    by (simp add: root_angle_def two_pi_exact f64_of_c_int_exact T_def K_def N_def
        del: of_int_sint)
  have x2_bound: "\<bar>T * K\<bar> \<le> 2 ^ 64"
  proof -
    have "T * K \<le> 7 * 2 ^ 31" using T K0 KN N31 by (intro mult_mono) linarith+
    with T K0 show ?thesis by (simp add: abs_mult)
  qed
  have x2_zero: "T * K = 0 \<or> pow2 (- 1022) \<le> \<bar>T * K\<bar>"
  proof (cases "sint k = 0")
    case True
    then show ?thesis by (simp add: K_def del: of_int_sint)
  next
    case False
    with k0 have "1 \<le> sint k" by simp
    then have "real_of_int 1 \<le> real_of_int (sint k)" by (simp only: of_int_le_iff)
    then have "1 \<le> K" by (simp add: K_def del: of_int_sint)
    with T have "1 * 1 \<le> T * K" by (intro mult_mono) linarith+
    moreover have "pow2 (- 1022) \<le> 1" by (simp add: pow2_def)
    ultimately show ?thesis by simp
  qed
  from round64_relative [OF x2_zero x2_bound] obtain r2 where
    r2: "round64 (T * K) = DFin r2" "\<bar>r2 - T * K\<bar> \<le> \<bar>T * K\<bar> * u"
    by (auto simp: u_def)
  have TK0: "0 \<le> T * K" using T K0 by simp
  with r2(2) have r2_err: "\<bar>r2 - T * K\<bar> \<le> T * K * u" by simp
  have Tq: "T * K / N = T * q" by (simp add: q_def)
  have Tq_bound: "0 \<le> T * q" "T * q \<le> 7"
  proof -
    show "0 \<le> T * q" using T q by simp
    have "T * q \<le> 7 * 1" using T q by (intro mult_mono) linarith+
    then show "T * q \<le> 7" by simp
  qed
  have d2: "\<bar>r2 / N - T * q\<bar> \<le> 7 * u"
  proof -
    have "r2 / N - T * q = (r2 - T * K) / N" using N1 by (simp add: q_def field_simps)
    then have "\<bar>r2 / N - T * q\<bar> = \<bar>r2 - T * K\<bar> / N" using N1 by simp
    also have "\<dots> \<le> T * K * u / N" using r2_err N1 by (intro divide_right_mono) simp_all
    also have "\<dots> = T * q * u" by (simp add: q_def)
    also have "\<dots> \<le> 7 * u" using Tq_bound u(1) by (intro mult_right_mono) simp_all
    finally show ?thesis .
  qed
  with Tq_bound u have x3_abs: "\<bar>r2 / N\<bar> \<le> 8" by linarith
  have x3_zero: "r2 / N = 0 \<or> pow2 (- 1022) \<le> \<bar>r2 / N\<bar>"
  proof (cases "T * K = 0")
    case True
    with r2_err have "r2 = 0" by simp
    then show ?thesis by simp
  next
    case False
    with x2_zero TK0 have "pow2 (- 1022) \<le> T * K" by simp
    have "1 \<le> K"
    proof (rule ccontr)
      assume "\<not> 1 \<le> K"
      then have "sint k < 1" by (simp add: K_def del: of_int_sint)
      with k0 have "sint k = 0" by simp
      with False show False by (simp add: K_def del: of_int_sint)
    qed
    with T have "6 * 1 \<le> T * K" by (intro mult_mono) linarith+
    moreover have "T * K * u \<le> T * K * (1 / 2)" using TK0 uh by (intro mult_left_mono) simp_all
    ultimately have "3 \<le> r2" using r2_err by linarith
    then have "3 / 2 ^ 31 \<le> r2 / N" using N1 N31 by (intro frac_le) simp_all
    moreover have "pow2 (- 1022) \<le> 3 / 2 ^ 31" by (simp add: pow2_def)
    ultimately show ?thesis by linarith
  qed
  from x3_abs have "\<bar>r2 / N\<bar> \<le> 2 ^ 64" by simp
  from round64_relative [OF x3_zero this] obtain r3 where
    r3: "round64 (r2 / N) = DFin r3" "\<bar>r3 - r2 / N\<bar> \<le> \<bar>r2 / N\<bar> * u"
    by (auto simp: u_def)
  have "\<bar>r2 / N\<bar> * u \<le> 8 * u" using x3_abs u(1) by (intro mult_right_mono) simp_all
  with r3(2) have d3: "\<bar>r3 - r2 / N\<bar> \<le> 8 * u" by linarith
  have dpi: "\<bar>T * q - 2 * pi * q\<bar> \<le> 4 * u"
  proof -
    have "T * q - 2 * pi * q = (T - 2 * pi) * q" by (simp add: algebra_simps)
    then have "\<bar>T * q - 2 * pi * q\<bar> = \<bar>T - 2 * pi\<bar> * \<bar>q\<bar>" by (simp only: abs_mult)
    also have "\<dots> = \<bar>T - 2 * pi\<bar> * q" using q(1) by simp
    also have "\<dots> \<le> 4 * u * 1" using pi2 q u(1) by (intro mult_mono) simp_all
    finally show ?thesis by simp
  qed
  have "\<bar>r3 - 2 * pi * q\<bar> \<le> 19 * u" using d2 d3 dpi by linarith
  with u have "\<bar>r3 - 2 * pi * q\<bar> \<le> 1 / 2 ^ 48" by linarith
  moreover have "2 * pi * q = 2 * pi * real_of_int (sint k) / real_of_int (sint n)"
    by (simp add: q_def K_def N_def del: of_int_sint)
  moreover have "root_angle k n = DFin r3"
    using N1 r2(1) r3(1) by (simp add: ra)
  ultimately show ?thesis by (simp del: of_int_sint)
qed

lemma root_angle_zero: "root_angle 0 1 = DFin 0"
  by (simp add: root_angle_def two_pi_exact f64_of_c_int_exact)

subsection \<open>The loop over the roots\<close>

lemma sint_succ: "sint k < sint (n :: c_int) \<Longrightarrow> sint (k + 1 :: c_int) = sint k + 1"
proof -
  assume lt: "sint k < sint n"
  have "sint (k + 1) = signed_take_bit 31 (sint k + sint (1 :: c_int))"
    using sint_word_ariths(1) [of k 1] by simp
  also have "sint (1 :: c_int) = 1" by simp
  also have "signed_take_bit 31 (sint k + 1) = sint k + 1"
    using lt sint_ge [of k] sint_lt [of n] by (intro signed_take_bit_int_eq_self) simp_all
  finally show ?thesis .
qed

lemma roots_loop_nth:
  assumes "0 \<le> sint k" "length roots = nat (sint n)"
  shows "length (roots_loop dcos dsin n k roots) = nat (sint n) \<and>
         (\<forall>j. sint k \<le> sint j \<and> sint j < sint n \<longrightarrow>
            roots_loop dcos dsin n k roots ! nat (sint j) =
              \<lparr>c_re = f32_of_f64 (dcos (root_angle j n)), c_im = f32_of_f64 (dsin (root_angle j n))\<rparr>) \<and>
         (\<forall>i < nat (sint k). roots_loop dcos dsin n k roots ! i = roots ! i)"
  using assms
proof (induction dcos dsin n k roots rule: roots_loop.induct)
  case (1 dcos dsin n k roots)
  show ?case
  proof (cases "k <s n")
    case False
    then have ge: "\<not> sint k < sint n" by (simp add: word_sless_alt)
    from False have "roots_loop dcos dsin n k roots = roots"
      by (subst roots_loop.simps) simp
    with "1.prems" ge show ?thesis by auto
  next
    case True
    then have lt: "sint k < sint n" by (simp only: word_sless_alt)
    then have succ: "sint (k + 1) = sint k + 1" by (rule sint_succ)
    define c where "c = \<lparr>c_re = f32_of_f64 (dcos (root_angle k n)),
                         c_im = f32_of_f64 (dsin (root_angle k n))\<rparr>"
    have unf: "roots_loop dcos dsin n k roots =
               roots_loop dcos dsin n (k + 1) (roots[nat (sint k) := c])"
      using True by (subst roots_loop.simps) (simp add: c_def Let_def)
    from "1.prems"(1) succ have p1: "0 \<le> sint (k + 1)" by simp
    from "1.prems"(2) have p2: "length (roots[nat (sint k) :=
        \<lparr>c_re = f32_of_f64 (dcos (root_angle k n)), c_im = f32_of_f64 (dsin (root_angle k n))\<rparr>])
        = nat (sint n)" by simp
    from "1.IH" [OF True refl p1 p2] have
      ih: "length (roots_loop dcos dsin n (k + 1) (roots[nat (sint k) := c])) = nat (sint n)"
        "\<And>j. sint (k + 1) \<le> sint j \<Longrightarrow> sint j < sint n \<Longrightarrow>
           roots_loop dcos dsin n (k + 1) (roots[nat (sint k) := c]) ! nat (sint j) =
             \<lparr>c_re = f32_of_f64 (dcos (root_angle j n)), c_im = f32_of_f64 (dsin (root_angle j n))\<rparr>"
        "\<And>i. i < nat (sint (k + 1)) \<Longrightarrow>
           roots_loop dcos dsin n (k + 1) (roots[nat (sint k) := c]) ! i = roots[nat (sint k) := c] ! i"
      by (simp_all add: c_def)
    have at_k: "roots_loop dcos dsin n k roots ! nat (sint k) = c"
      using ih(3) [of "nat (sint k)"] succ "1.prems" lt by (simp add: unf)
    have "roots_loop dcos dsin n k roots ! nat (sint j) =
            \<lparr>c_re = f32_of_f64 (dcos (root_angle j n)), c_im = f32_of_f64 (dsin (root_angle j n))\<rparr>"
      if "sint k \<le> sint j" "sint j < sint n" for j
    proof (cases "sint j = sint k")
      case True
      then have "j = k" by (rule signed_word_eqI)
      with at_k show ?thesis by (simp add: c_def)
    next
      case False
      with that succ have "sint (k + 1) \<le> sint j" by simp
      then show ?thesis unfolding unf using that(2) by (rule ih(2))
    qed
    moreover have "roots_loop dcos dsin n k roots ! i = roots ! i" if "i < nat (sint k)" for i
      using ih(3) [of i] that succ "1.prems"(1) by (simp add: unf)
    ultimately show ?thesis using ih(1) by (simp add: unf)
  qed
qed

lemma compute_roots_nth:
  assumes "0 \<le> sint k" "sint k < sint n"
  shows "\<exists>roots. compute_roots dcos dsin n = Some roots \<and> length roots = nat (sint n) \<and>
           roots ! nat (sint k) =
             \<lparr>c_re = f32_of_f64 (dcos (root_angle k n)), c_im = f32_of_f64 (dsin (root_angle k n))\<rparr>"
proof -
  from assms have n: "\<not> n <s 0" by (simp add: word_sless_alt)
  have z: "0 \<le> sint (0 :: c_int)" by simp
  have len: "length (replicate (nat (sint n)) \<lparr>c_re = Fin 0, c_im = Fin 0\<rparr>) = nat (sint n)"
    by simp
  from roots_loop_nth [OF z len, of dcos dsin] assms show ?thesis
    by (simp add: compute_roots_def n)
qed

lemma compute_roots_single:
  "compute_roots rounded_cos rounded_sin 1 = Some [\<lparr>c_re = Fin 1, c_im = Fin 0\<rparr>]"
proof -
  have a: "(0 :: c_int) <s 1" "\<not> (1 :: c_int) <s 1" "\<not> (1 :: c_int) <s 0"
    by (simp_all add: word_sless_alt)
  have "roots_loop rounded_cos rounded_sin 1 (0 + 1) rs = rs" for rs
    using a(2) by (subst roots_loop.simps) simp
  then have "roots_loop rounded_cos rounded_sin 1 0 [\<lparr>c_re = Fin 0, c_im = Fin 0\<rparr>] =
      [\<lparr>c_re = Fin 1, c_im = Fin 0\<rparr>]"
    using a(1) by (subst roots_loop.simps) (simp add: root_angle_zero)
  with a(3) show ?thesis by (simp add: compute_roots_def)
qed

subsection \<open>From the library's accuracy to the stored root\<close>

lemma rounded_libm_accurate: "libm_accurate (1 / 2 ^ 53) rounded_cos rounded_sin"
  unfolding libm_accurate_def
proof
  fix x :: real
  have "\<bar>cos x\<bar> < 2" using abs_cos_le_one [of x] by linarith
  then obtain c where c: "round64 (cos x) = DFin c" "\<bar>c - cos x\<bar> \<le> 1 / 2 ^ 53"
    using round64_near by blast
  have "\<bar>sin x\<bar> < 2" using abs_sin_le_one [of x] by linarith
  then obtain s where s: "round64 (sin x) = DFin s" "\<bar>s - sin x\<bar> \<le> 1 / 2 ^ 53"
    using round64_near by blast
  from c s show "\<exists>c s. rounded_cos (DFin x) = DFin c \<and> rounded_sin (DFin x) = DFin s \<and>
      \<bar>c - cos x\<bar> \<le> 1 / 2 ^ 53 \<and> \<bar>s - sin x\<bar> \<le> 1 / 2 ^ 53"
    by simp
qed

lemma libm_component:
  fixes f :: "real \<Rightarrow> real"
  assumes c: "\<bar>c - f a\<bar> \<le> e" and e: "e < 1" and f: "\<bar>f a\<bar> \<le> 1" "\<bar>f a - f b\<bar> \<le> \<bar>a - b\<bar>"
    and a: "\<bar>a - b\<bar> \<le> 1 / 2 ^ 48"
  shows "\<exists>x. round32 c = Fin x \<and> \<bar>x - f a\<bar> \<le> e + 1 / 2 ^ 24 \<and>
           \<bar>x - f b\<bar> \<le> e + 1 / 2 ^ 24 + 1 / 2 ^ 48"
proof -
  from c e f(1) have "\<bar>c\<bar> < 2" by linarith
  then obtain x where x: "round32 c = Fin x" "\<bar>x - c\<bar> \<le> 1 / 2 ^ 24"
    using round32_near by blast
  from x(2) c have "\<bar>x - f a\<bar> \<le> e + 1 / 2 ^ 24" by linarith
  moreover from this f(2) a have "\<bar>x - f b\<bar> \<le> e + 1 / 2 ^ 24 + 1 / 2 ^ 48" by linarith
  ultimately show ?thesis using x(1) by blast
qed

lemma near_unit_circle:
  assumes x: "\<bar>x - cos a\<bar> \<le> t" and y: "\<bar>y - sin a\<bar> \<le> t"
  shows "\<bar>sqrt (x\<^sup>2 + y\<^sup>2) - 1\<bar> \<le> 4 * t + 2 * t\<^sup>2"
proof -
  define d1 where "d1 = x - cos a"
  define d2 where "d2 = y - sin a"
  have t0: "0 \<le> t" using x by linarith
  have d: "\<bar>d1\<bar> \<le> t" "\<bar>d2\<bar> \<le> t" using x y by (simp_all add: d1_def d2_def)
  have "x\<^sup>2 + y\<^sup>2 = (cos a + d1)\<^sup>2 + (sin a + d2)\<^sup>2" by (simp add: d1_def d2_def)
  also have "\<dots> = (sin a)\<^sup>2 + (cos a)\<^sup>2 + 2 * (cos a * d1) + 2 * (sin a * d2) + d1\<^sup>2 + d2\<^sup>2"
    by (simp add: power2_eq_square algebra_simps)
  finally have s: "x\<^sup>2 + y\<^sup>2 - 1 = 2 * (cos a * d1) + 2 * (sin a * d2) + d1\<^sup>2 + d2\<^sup>2"
    by simp
  have "\<bar>cos a * d1\<bar> \<le> 1 * t" unfolding abs_mult
    using d(1) by (intro mult_mono abs_cos_le_one) simp_all
  moreover have "\<bar>sin a * d2\<bar> \<le> 1 * t" unfolding abs_mult
    using d(2) by (intro mult_mono abs_sin_le_one) simp_all
  moreover have "d1\<^sup>2 \<le> t\<^sup>2" using d(1) t0 by (simp add: abs_le_square_iff [symmetric])
  moreover have "d2\<^sup>2 \<le> t\<^sup>2" using d(2) t0 by (simp add: abs_le_square_iff [symmetric])
  moreover have "0 \<le> d1\<^sup>2" "0 \<le> d2\<^sup>2" by simp_all
  ultimately have sq: "\<bar>x\<^sup>2 + y\<^sup>2 - 1\<bar> \<le> 4 * t + 2 * t\<^sup>2" unfolding s by linarith
  define r where "r = sqrt (x\<^sup>2 + y\<^sup>2)"
  have r0: "0 \<le> r" by (simp add: r_def)
  have "r * r = x\<^sup>2 + y\<^sup>2" by (simp add: r_def)
  then have "x\<^sup>2 + y\<^sup>2 - 1 = (r - 1) * (r + 1)" by (simp add: algebra_simps)
  then have "\<bar>x\<^sup>2 + y\<^sup>2 - 1\<bar> = \<bar>r - 1\<bar> * (r + 1)" using r0 by (simp add: abs_mult)
  moreover have "\<bar>r - 1\<bar> * 1 \<le> \<bar>r - 1\<bar> * (r + 1)" using r0 by (intro mult_left_mono) simp_all
  ultimately have "\<bar>r - 1\<bar> \<le> \<bar>x\<^sup>2 + y\<^sup>2 - 1\<bar>" by simp
  with sq show ?thesis unfolding r_def by linarith
qed

subsection \<open>No float is half the square root of three\<close>

lemma binary32_scaled_int:
  assumes "round32 x = Fin r"
  shows "\<exists>N :: int. r * 2 ^ 149 = of_int N"
proof -
  define p :: real where "p = 2 ^ 149"
  from assms have "round32 r = Fin r" by (rule round32_idem)
  then obtain M :: int where M: "r = of_int M * pow2 (expo r - 23)"
    by (rule f32_decompose)
  have "0 \<le> expo r - 23 + 149" using expo_range [of r] by linarith
  then have "pow2 (expo r - 23 + 149) = of_int (2 ^ nat (expo r - 23 + 149))"
    by (rule pow2_int)
  moreover have "pow2 149 = p" by (simp add: pow2_def p_def)
  ultimately have pp: "pow2 (expo r - 23) * p = of_int (2 ^ nat (expo r - 23 + 149))"
    by (simp only: pow2_add)
  have "r * p = of_int M * pow2 (expo r - 23) * p"
    by (rule arg_cong [where f = "\<lambda>z. z * p", OF M])
  also have "\<dots> = of_int M * (pow2 (expo r - 23) * p)" by (simp only: mult.assoc)
  also have "\<dots> = of_int M * of_int (2 ^ nat (expo r - 23 + 149))" by (simp only: pp)
  also have "\<dots> = of_int (M * 2 ^ nat (expo r - 23 + 149))" by simp
  finally have "r * 2 ^ 149 = of_int (M * 2 ^ nat (expo r - 23 + 149))" by (simp only: p_def)
  then show ?thesis ..
qed

lemma no_square_three: "(N :: int)\<^sup>2 \<noteq> 3 * 2 ^ 296"
proof
  assume eq: "N\<^sup>2 = 3 * 2 ^ 296"
  have m: "N\<^sup>2 mod 3 = (N mod 3)\<^sup>2 mod 3" by (simp add: power_mod)
  have "0 \<le> N mod 3" "N mod 3 < 3" by simp_all
  then consider "N mod 3 = 0" | "N mod 3 = 1" | "N mod 3 = 2" by linarith
  then show False
  proof cases
    case 1
    then obtain b where b: "N = 3 * b" by (auto simp: mod_eq_0_iff_dvd)
    with eq have "3 * (3 * b\<^sup>2) = 3 * 2 ^ 296" by (simp add: power2_eq_square)
    then have "3 * b\<^sup>2 = 2 ^ 296" by simp
    then have "(2 ^ 296 :: int) mod 3 = 0" by (metis mod_mult_self1_is_0)
    then show False by simp
  next
    case 2
    with m eq show False by simp
  next
    case 3
    with m eq show False by simp
  qed
qed

lemma binary32_not_sqrt3_half:
  assumes "round32 x = Fin r"
  shows "r \<noteq> sqrt 3 / 2"
proof
  assume r: "r = sqrt 3 / 2"
  define p :: real where "p = 2 ^ 148"
  from assms obtain N :: int where N: "r * 2 ^ 149 = of_int N" using binary32_scaled_int by blast
  have "(2 :: real) ^ 149 = 2 * p" by (simp add: p_def)
  with N r have "real_of_int N = sqrt 3 * p" by simp
  then have "(real_of_int N)\<^sup>2 = (sqrt 3 * p)\<^sup>2" by (simp only:)
  also have "\<dots> = 3 * p\<^sup>2" by (simp add: power_mult_distrib)
  also have "p\<^sup>2 = 2 ^ 296" by (simp add: p_def)
  finally have "real_of_int (N\<^sup>2) = real_of_int (3 * 2 ^ 296)" by simp
  then have "N\<^sup>2 = 3 * 2 ^ 296" by (simp only: of_int_eq_iff)
  with no_square_three show False by blast
qed

section \<open>Properties\<close>

text \<open>
  C1: for a root index that is not negative, the color of a pixel is
  \<^verbatim>\<open>hsv_to_rgb(hue, 0.9f, value)\<close> with \<open>hue = root_index / n\<close> and
  \<open>value = pow(1 - iters / max_iterations, gamma)\<close>, and the post-processing loop leaves
  in slot \<open>i\<close> of the image the color of pixel \<open>i\<close>: a function of the pixel's root index and
  iteration count, \<open>n\<close>, \<open>max_iterations\<close> and \<open>gamma\<close> alone.
\<close>

theorem colorizer_converged_pixel:
  "(0 \<le>s root_index \<longrightarrow>
      pixel_color pow n max_iterations gamma root_index iters
        = hsv_to_rgb (f32_div (f32_of_c_int root_index) (f32_of_c_int n))
            (round32 (9 / 10))
            (pow (f32_sub (Fin 1) (f32_div (f32_of_c_int iters) (f32_of_c_int max_iterations)))
               gamma)) \<and>
   (post_process pow n max_iterations gamma npix output_root output_iters = Some image_data \<and>
    length output_root = npix \<and> length output_iters = npix \<and> i < npix \<longrightarrow>
      pixel_color pow n max_iterations gamma (output_root ! i) (output_iters ! i)
        = Some (image_data ! i))"
proof -
  have body: "pixel_color pow n max_iterations gamma root_index iters
      = hsv_to_rgb (f32_div (f32_of_c_int root_index) (f32_of_c_int n)) (round32 (9 / 10))
          (pow (f32_sub (Fin 1) (f32_div (f32_of_c_int iters) (f32_of_c_int max_iterations)))
             gamma)" if "0 \<le>s root_index"
  proof -
    from that have "0 \<le> sint root_index" by (simp add: word_sle_eq)
    then have "root_index \<noteq> - 1" by (rule sint_nonneg_neq_minus1)
    then show ?thesis by (simp add: pixel_color_def pixel_hue_def pixel_value_def)
  qed
  have loop: "pixel_color pow n max_iterations gamma (output_root ! i) (output_iters ! i)
      = Some (image_data ! i)"
    if "post_process pow n max_iterations gamma npix output_root output_iters = Some image_data"
      and "i < npix"
    using that unfolding post_process_def using post_loop_some
    by (metis length_replicate le0)
  from body loop show ?thesis by blast
qed

theorem colorizer_converged_pixel_witness:
  "(0 :: c_int) \<le>s 0 \<and>
   post_process pow_nat_exponent 3 100 (Fin 4) 2 [0, - 1] [0, 5]
     = Some [\<lparr>rgb_r = 255, rgb_g = 25, rgb_b = 25\<rparr>, black] \<and>
   length [0 :: c_int, - 1] = 2 \<and> length [0 :: c_int, 5] = 2 \<and> (0 :: nat) < 2 \<and>
   pixel_color pow_nat_exponent 3 100 (Fin 4) ([0, - 1] ! 0) ([0, 5] ! 0)
     = Some ([\<lparr>rgb_r = 255, rgb_g = 25, rgb_b = 25\<rparr>, black] ! 0) \<and>
   hsv_to_rgb (f32_div (f32_of_c_int 0) (f32_of_c_int 3)) (round32 (9 / 10))
     (pow_nat_exponent (f32_sub (Fin 1) (f32_div (f32_of_c_int 0) (f32_of_c_int 100))) (Fin 4))
     = Some \<lparr>rgb_r = 255, rgb_g = 25, rgb_b = 25\<rparr>"
proof -
  have z: "(0 :: c_int) \<le>s 0" by (simp add: word_sle_eq)
  have h: "length [0 :: c_int, - 1] = 2" "length [0 :: c_int, 5] = 2" "(0 :: nat) < 2"
    by simp_all
  note t = colorizer_converged_pixel [of 0 pow_nat_exponent 3 100 "Fin 4" 0 2 "[0, - 1]" "[0, 5]"
      "[\<lparr>rgb_r = 255, rgb_g = 25, rgb_b = 25\<rparr>, black]" 0]
  from t post_process_example h
  have l: "pixel_color pow_nat_exponent 3 100 (Fin 4) ([0, - 1] ! 0) ([0, 5] ! 0)
     = Some ([\<lparr>rgb_r = 255, rgb_g = 25, rgb_b = 25\<rparr>, black] ! 0)" by blast
  from t z have "pixel_color pow_nat_exponent 3 100 (Fin 4) 0 0
     = hsv_to_rgb (f32_div (f32_of_c_int 0) (f32_of_c_int 3)) (round32 (9 / 10))
     (pow_nat_exponent (f32_sub (Fin 1) (f32_div (f32_of_c_int 0) (f32_of_c_int 100))) (Fin 4))"
    by blast
  with l have b: "hsv_to_rgb (f32_div (f32_of_c_int 0) (f32_of_c_int 3)) (round32 (9 / 10))
     (pow_nat_exponent (f32_sub (Fin 1) (f32_div (f32_of_c_int 0) (f32_of_c_int 100))) (Fin 4))
     = Some \<lparr>rgb_r = 255, rgb_g = 25, rgb_b = 25\<rparr>" by simp
  from z post_process_example h l b show ?thesis by (intro conjI)
qed

text \<open>
  C2: whatever the iteration count and gamma, the colorizer gives a pixel whose root
  index is \<open>-1\<close> the color black \<open>(0,0,0)\<close>.
\<close>

theorem pixel_color_unconverged_black:
  "pixel_color pow n max_iterations gamma (- 1) iters = Some \<lparr>rgb_r = 0, rgb_g = 0, rgb_b = 0\<rparr>"
  by (simp add: pixel_color_def black_def)

text \<open>
  C3: for a hue \<open>h\<close> of \<open>[0,1)\<close>, a saturation \<open>s > 0\<close> and a value \<open>v\<close> of \<open>[0,1]\<close>,
  \<^verbatim>\<open>hsv_to_rgb\<close> computes what the specification describes: the sector \<open>floor(6h)\<close> lies
  in \<open>0..5\<close>, the remainder \<open>f\<close> is the fractional part of \<open>6h\<close>, \<open>p\<close>, \<open>q\<close>, \<open>t\<close> are the three
  products, the sector picks its row of the table, and each channel is multiplied by 255
  and truncated. The casts are defined whenever moreover \<open>s \<le> 1\<close>. In particular
  \<^verbatim>\<open>hsv_to_rgb(0, 0.9f, 1.0f)\<close> is \<open>(255, 25, 25)\<close>.
\<close>

theorem hsv_to_rgb_sector_table:
  assumes h: "is_f32 h" "f32_le (Fin 0) h" "f32_lt h (Fin 1)"
    and s: "f32_lt (Fin 0) s" and v: "in_unit v"
  shows "hsv_sector h \<in> {0..5} \<and>
         hsv_to_rgb h s v = hsv_to_rgb_spec h s v \<and>
         (f32_le s (Fin 1) \<longrightarrow> hsv_to_rgb h s v \<noteq> None) \<and>
         hsv_to_rgb (Fin 0) (round32 (9 / 10)) (Fin 1)
           = Some \<lparr>rgb_r = 255, rgb_g = 25, rgb_b = 25\<rparr>"
proof -
  from h obtain hr where hr: "h = Fin hr" "round32 hr = Fin hr" "0 \<le> hr" "hr < 1"
    by (cases h) simp_all
  from hue_times_six [OF hr(2,3,4)] obtain x where
    x: "round32 (hr * 6) = Fin x" "round32 x = Fin x" "0 \<le> x" "x < 6" by blast
  from hr x have hx: "f32_mul h (Fin 6) = Fin x" by simp
  from s have s0: "\<not> f32_eq s (Fin 0)" by (cases s) simp_all
  from x have fl: "0 \<le> \<lfloor>x\<rfloor>" "\<lfloor>x\<rfloor> \<le> 5" by (simp_all add: floor_le_iff)
  then have sec: "hsv_sector h \<in> {0..5}" by (simp add: hsv_spec_parts [OF hx])
  have eq: "hsv_to_rgb h s v = hsv_to_rgb_spec h s v"
    using s0 hx x(2,3,4) by (rule hsv_to_rgb_refines_spec)
  have def: "hsv_to_rgb h s v \<noteq> None" if s1: "f32_le s (Fin 1)"
  proof -
    from s s1 have su: "in_unit s" "s \<noteq> Fin 0" by (cases s; simp)+
    from hr have hu: "in_unit h" "is_f32 h" by simp_all
    define f where "f = Fin (x - of_int \<lfloor>x\<rfloor>)"
    define p where "p = f32_mul v (f32_sub (Fin 1) s)"
    define q where "q = f32_mul v (f32_sub (Fin 1) (f32_mul s f))"
    define t where "t = f32_mul v (f32_sub (Fin 1) (f32_mul s (f32_sub (Fin 1) f)))"
    have fu: "in_unit f" unfolding f_def by simp linarith
    have pu: "in_unit p" unfolding p_def using v su(1) by (intro in_unit_mul in_unit_compl)
    have qu: "in_unit q" unfolding q_def using v su(1) fu by (intro in_unit_mul in_unit_compl)
    have tu: "in_unit t" unfolding t_def using v su(1) fu by (intro in_unit_mul in_unit_compl)
    from x have x7: "x < 2 ^ 31" by simp
    note unfold = hsv_to_rgb_sector [OF s0 hx x(2,3) x7, of v, unfolded Let_def,
      folded f_def, folded p_def q_def t_def]
    show ?thesis
      unfolding unfold
      using rgb_cast_unit [OF v tu pu] rgb_cast_unit [OF qu v pu] rgb_cast_unit [OF pu v tu]
        rgb_cast_unit [OF pu qu v] rgb_cast_unit [OF tu pu v] rgb_cast_unit [OF v pu qu]
      by auto
  qed
  from sec eq def hsv_to_rgb_red show ?thesis by blast
qed

theorem hsv_to_rgb_sector_table_witness:
  "is_f32 (Fin (1 / 2)) \<and> f32_le (Fin 0) (Fin (1 / 2)) \<and> f32_lt (Fin (1 / 2)) (Fin 1) \<and>
   f32_lt (Fin 0) (Fin 1) \<and> in_unit (Fin 1) \<and> f32_le (Fin 1) (Fin 1) \<and>
   hsv_sector (Fin (1 / 2)) = 3 \<and>
   hsv_to_rgb (Fin (1 / 2)) (Fin 1) (Fin 1) = hsv_to_rgb_spec (Fin (1 / 2)) (Fin 1) (Fin 1) \<and>
   hsv_to_rgb (Fin (1 / 2)) (Fin 1) (Fin 1) \<noteq> None"
proof -
  have a: "is_f32 (Fin (1 / 2))" by (simp add: f32_eval)
  have b: "f32_le (Fin 0) (Fin (1 / 2))" "f32_lt (Fin (1 / 2)) (Fin 1)" "f32_lt (Fin 0) (Fin 1)"
    "in_unit (Fin 1)" "f32_le (Fin 1) (Fin 1)" by simp_all
  have c: "hsv_sector (Fin (1 / 2)) = 3" by (simp add: hsv_sector_def f32_eval)
  note t = hsv_to_rgb_sector_table [OF a b(1,2,3,4)]
  from t have t2: "hsv_to_rgb (Fin (1 / 2)) (Fin 1) (Fin 1) = hsv_to_rgb_spec (Fin (1 / 2)) (Fin 1) (Fin 1)"
    by blast
  from t b(5) have t3: "hsv_to_rgb (Fin (1 / 2)) (Fin 1) (Fin 1) \<noteq> None" by blast
  from a b c t2 t3 show ?thesis by (intro conjI)
qed

text \<open>
  C4: for every value \<open>v\<close> of \<open>[0,1]\<close>, the product \<open>v * 255\<close> lies in \<open>[0,255]\<close> and
  \<^verbatim>\<open>hsv_to_rgb(h, 0, v)\<close> is the gray triple whose three channels are its truncation,
  whatever the hue \<open>h\<close>.
\<close>

theorem hsv_to_rgb_gray:
  assumes "in_unit v"
  shows "\<exists>r. f32_mul v (Fin 255) = Fin r \<and> 0 \<le> r \<and> r \<le> 255 \<and>
           (\<forall>h. hsv_to_rgb h (Fin 0) v
                  = Some \<lparr>rgb_r = word_of_int \<lfloor>r\<rfloor>, rgb_g = word_of_int \<lfloor>r\<rfloor>,
                          rgb_b = word_of_int \<lfloor>r\<rfloor>\<rparr>)"
proof -
  from in_unit_scale [OF assms] obtain r where
    r: "f32_mul v (Fin 255) = Fin r" "0 \<le> r" "r \<le> 255" by blast
  then have "0 \<le> \<lfloor>r\<rfloor>" "\<lfloor>r\<rfloor> \<le> 255" by (simp_all add: floor_le_iff)
  with r(2) have "to_uchar (Fin r) = Some (word_of_int \<lfloor>r\<rfloor>)" by (simp add: trunc_nonneg)
  with r have "hsv_to_rgb h (Fin 0) v
      = Some \<lparr>rgb_r = word_of_int \<lfloor>r\<rfloor>, rgb_g = word_of_int \<lfloor>r\<rfloor>, rgb_b = word_of_int \<lfloor>r\<rfloor>\<rparr>"
    for h by (simp add: hsv_to_rgb_def rgb_cast_def)
  with r show ?thesis by blast
qed

theorem hsv_to_rgb_gray_witness:
  "in_unit (Fin (1 / 2)) \<and> f32_mul (Fin (1 / 2)) (Fin 255) = Fin (255 / 2) \<and>
   hsv_to_rgb NaN (Fin 0) (Fin (1 / 2)) = Some \<lparr>rgb_r = 127, rgb_g = 127, rgb_b = 127\<rparr> \<and>
   hsv_to_rgb (Fin (1 / 3)) (Fin 0) (Fin (1 / 2)) = Some \<lparr>rgb_r = 127, rgb_g = 127, rgb_b = 127\<rparr>"
proof -
  have u: "in_unit (Fin (1 / 2))" by simp
  have m: "f32_mul (Fin (1 / 2)) (Fin 255) = Fin (255 / 2)" by (simp add: f32_eval)
  from hsv_to_rgb_gray [OF u] obtain r where
    r: "f32_mul (Fin (1 / 2)) (Fin 255) = Fin r"
      "\<And>h. hsv_to_rgb h (Fin 0) (Fin (1 / 2))
          = Some \<lparr>rgb_r = word_of_int \<lfloor>r\<rfloor>, rgb_g = word_of_int \<lfloor>r\<rfloor>, rgb_b = word_of_int \<lfloor>r\<rfloor>\<rparr>"
    by blast
  from r(1) m have "r = 255 / 2" by (simp only: f32.inject)
  moreover have "\<lfloor>255 / 2 :: real\<rfloor> = 127" by simp
  ultimately have "\<lfloor>r\<rfloor> = 127" by (simp only:)
  with r(2) have "hsv_to_rgb h (Fin 0) (Fin (1 / 2)) = Some \<lparr>rgb_r = 127, rgb_g = 127, rgb_b = 127\<rparr>"
    for h by simp
  with u m show ?thesis by simp
qed

text \<open>
  C5, as amended: for an image of at least two columns and two rows, the viewport
  \<open>[-5,5] \<times> [-5,5]\<close> and every pixel of the image, the pixel-to-complex mapping divides
  by a nonzero \<open>width - 1\<close> and \<open>height - 1\<close>, its result is finite and lies in the viewport,
  and the pixels of the first and last column and row land exactly on the bounds; the
  solver returns a result of the documented range for the pixel.
\<close>

theorem pixel_to_complex_in_viewport:
  assumes "2 \<le>s width" "2 \<le>s height" "0 \<le>s px" "px <s width" "0 \<le>s py" "py <s height"
    and "0 \<le> max_iterations" and "length roots = n"
  shows "f32_of_c_int (width - 1) \<noteq> Fin 0 \<and> f32_of_c_int (height - 1) \<noteq> Fin 0 \<and>
         (\<exists>x y. pixel_to_complex (Fin (- 5)) (Fin 5) (Fin (- 5)) (Fin 5) width height px py
                  = \<lparr>c_re = Fin x, c_im = Fin y\<rparr> \<and>
                - 5 \<le> x \<and> x \<le> 5 \<and> - 5 \<le> y \<and> y \<le> 5 \<and>
                (px = 0 \<longrightarrow> x = - 5) \<and> (px = width - 1 \<longrightarrow> x = 5) \<and>
                (py = 0 \<longrightarrow> y = - 5) \<and> (py = height - 1 \<longrightarrow> y = 5)) \<and>
         pr_root_index (fst (root_solver zd (Fin (- 5)) (Fin 5) (Fin (- 5)) (Fin 5) width height
             n roots max_iterations tol px py)) \<in> {- 1 .. int n - 1} \<and>
         pr_iteration_count (fst (root_solver zd (Fin (- 5)) (Fin 5) (Fin (- 5)) (Fin 5) width
             height n roots max_iterations tol px py)) \<in> {0 .. max_iterations}"
proof -
  from assms have s: "2 \<le> sint width" "2 \<le> sint height" "0 \<le> sint px" "sint px < sint width"
    "0 \<le> sint py" "sint py < sint height"
    by (simp_all add: word_sle_eq word_sless_alt)
  then have w: "sint (width - 1) = sint width - 1" and h: "sint (height - 1) = sint height - 1"
    by (simp_all add: sint_pred)
  from s w h have pw: "sint px \<le> sint (width - 1)" "1 \<le> sint (width - 1)"
    and ph: "sint py \<le> sint (height - 1)" "1 \<le> sint (height - 1)" by simp_all
  have nz: "f32_of_c_int d \<noteq> Fin 0" if "1 \<le> sint d" for d :: c_int
  proof -
    have "rnd 1 \<le> rnd (of_int (sint d))" using that by (intro rnd_mono) (simp del: of_int_sint)
    then show ?thesis by (simp add: f32_of_c_int_rnd del: of_int_sint)
  qed
  from axis_in_viewport [OF s(3) pw] obtain x where
    x: "f32_add (Fin (- 5))
          (f32_mul (f32_div (f32_of_c_int px) (f32_of_c_int (width - 1)))
             (f32_sub (Fin 5) (Fin (- 5)))) = Fin x"
      "- 5 \<le> x" "x \<le> 5" "px = 0 \<longrightarrow> x = - 5" "px = width - 1 \<longrightarrow> x = 5" by blast
  from axis_in_viewport [OF s(5) ph] obtain y where
    y: "f32_add (Fin (- 5))
          (f32_mul (f32_div (f32_of_c_int py) (f32_of_c_int (height - 1)))
             (f32_sub (Fin 5) (Fin (- 5)))) = Fin y"
      "- 5 \<le> y" "y \<le> 5" "py = 0 \<longrightarrow> y = - 5" "py = height - 1 \<longrightarrow> y = 5" by blast
  have "pixel_to_complex (Fin (- 5)) (Fin 5) (Fin (- 5)) (Fin 5) width height px py
      = \<lparr>c_re = Fin x, c_im = Fin y\<rparr>" by (simp only: pixel_to_complex_def x(1) y(1))
  with x(2-) y(2-) have mapping:
    "\<exists>x y. pixel_to_complex (Fin (- 5)) (Fin 5) (Fin (- 5)) (Fin 5) width height px py
                  = \<lparr>c_re = Fin x, c_im = Fin y\<rparr> \<and>
                - 5 \<le> x \<and> x \<le> 5 \<and> - 5 \<le> y \<and> y \<le> 5 \<and>
                (px = 0 \<longrightarrow> x = - 5) \<and> (px = width - 1 \<longrightarrow> x = 5) \<and>
                (py = 0 \<longrightarrow> y = - 5) \<and> (py = height - 1 \<longrightarrow> y = 5)" by blast
  have solver:
    "pr_root_index (fst (root_solver zd (Fin (- 5)) (Fin 5) (Fin (- 5)) (Fin 5) width height
         n roots max_iterations tol px py)) \<in> {- 1 .. int n - 1} \<and>
     pr_iteration_count (fst (root_solver zd (Fin (- 5)) (Fin 5) (Fin (- 5)) (Fin 5) width
         height n roots max_iterations tol px py)) \<in> {0 .. max_iterations}"
    using newton_loop_result [where iter = 0 and max_iterations = max_iterations and zd = zd
        and n = n and roots = roots and tol = tol
        and z = "pixel_to_complex (Fin (- 5)) (Fin 5) (Fin (- 5)) (Fin 5) width height px py"]
      assms(7,8)
    by (auto simp: root_solver_def split: prod.splits)
  from solver have s1: "pr_root_index (fst (root_solver zd (Fin (- 5)) (Fin 5) (Fin (- 5)) (Fin 5)
         width height n roots max_iterations tol px py)) \<in> {- 1 .. int n - 1}"
    and s2: "pr_iteration_count (fst (root_solver zd (Fin (- 5)) (Fin 5) (Fin (- 5)) (Fin 5) width
         height n roots max_iterations tol px py)) \<in> {0 .. max_iterations}" by blast+
  from nz [OF pw(2)] nz [OF ph(2)] mapping s1 s2 show ?thesis by (intro conjI)
qed

theorem pixel_to_complex_in_viewport_witness:
  "(2 :: c_int) \<le>s 3 \<and> (0 :: c_int) \<le>s 2 \<and> (2 :: c_int) <s 3 \<and> (0 :: c_int) \<le>s 0 \<and>
   (0 :: c_int) <s 3 \<and> (0 :: int) \<le> 100 \<and> length [\<lparr>c_re = Fin 1, c_im = Fin 0\<rparr>] = 1 \<and>
   (2 :: c_int) = 3 - 1 \<and>
   pixel_to_complex (Fin (- 5)) (Fin 5) (Fin (- 5)) (Fin 5) 3 3 2 0
     = \<lparr>c_re = Fin 5, c_im = Fin (- 5)\<rparr> \<and>
   pr_root_index (fst (root_solver exactly_zero (Fin (- 5)) (Fin 5) (Fin (- 5)) (Fin 5) 3 3 1
       [\<lparr>c_re = Fin 1, c_im = Fin 0\<rparr>] 100 (round32 (1 / 10 ^ 12)) 2 0)) \<in> {- 1 .. int 1 - 1}"
proof -
  have h: "(2 :: c_int) \<le>s 3" "(0 :: c_int) \<le>s 2" "(2 :: c_int) <s 3" "(0 :: c_int) \<le>s 0"
    "(0 :: c_int) <s 3" by (simp_all add: word_sle_eq word_sless_alt)
  have g: "(0 :: int) \<le> 100" "length [\<lparr>c_re = Fin 1, c_im = Fin 0\<rparr>] = 1" by simp_all
  have e: "(2 :: c_int) = 3 - 1" by simp
  note t = pixel_to_complex_in_viewport [OF h(1) h(1) h(2) h(3) h(4) h(5) g,
      of exactly_zero "round32 (1 / 10 ^ 12)"]
  from t obtain x y where
    xy: "pixel_to_complex (Fin (- 5)) (Fin 5) (Fin (- 5)) (Fin 5) 3 3 2 0
          = \<lparr>c_re = Fin x, c_im = Fin y\<rparr>"
      "(2 :: c_int) = 3 - 1 \<longrightarrow> x = 5" "(0 :: c_int) = 0 \<longrightarrow> y = - 5" by blast
  from xy(2) e have "x = 5" by (rule mp)
  moreover from xy(3) have "y = - 5" by simp
  ultimately have m: "pixel_to_complex (Fin (- 5)) (Fin 5) (Fin (- 5)) (Fin 5) 3 3 2 0
     = \<lparr>c_re = Fin 5, c_im = Fin (- 5)\<rparr>" using xy(1) by simp
  from t have r: "pr_root_index (fst (root_solver exactly_zero (Fin (- 5)) (Fin 5) (Fin (- 5))
       (Fin 5) 3 3 1 [\<lparr>c_re = Fin 1, c_im = Fin 0\<rparr>] 100 (round32 (1 / 10 ^ 12)) 2 0))
       \<in> {- 1 .. int 1 - 1}" by blast
  from h g e m r show ?thesis by (intro conjI)
qed

text \<open>
  C5 as stated, for every width and height from 1 on, fails: with a single column and row
  the mapping divides zero by zero, and the only pixel, which is an edge pixel, is mapped
  to NaN and not to a viewport bound.
\<close>

theorem pixel_to_complex_single_column_counterexample:
  "(1 :: c_int) \<le>s 1 \<and> (0 :: c_int) \<le>s 0 \<and> (0 :: c_int) <s 1 \<and>
   f32_of_c_int (1 - 1) = Fin 0 \<and>
   pixel_to_complex (Fin (- 5)) (Fin 5) (Fin (- 5)) (Fin 5) 1 1 0 0 = \<lparr>c_re = NaN, c_im = NaN\<rparr>"
  by (simp add: pixel_to_complex_def f32_of_c_int_def f32_of_int_small signed_inf_def
      word_sle_eq word_sless_alt)

text \<open>
  C6: when the derivative test fires at an iterate, the iteration stops there with root
  index \<open>-1\<close> and the count of updates made so far, the division of that step not being
  evaluated; and the solver returns root index \<open>-1\<close> exactly when it stopped on a zero
  derivative or on the exhausted budget.
\<close>

theorem zero_derivative_exit:
  "(iter < max_iterations \<and> zd (newton_f' n z) \<longrightarrow>
      newton_loop zd n roots max_iterations tol iter z
        = (\<lparr>pr_root_index = - 1, pr_iteration_count = iter\<rparr>, ZeroDerivative)) \<and>
   (pr_root_index (fst (root_solver zd x_min x_max y_min y_max width height n roots
        max_iterations tol px py)) = - 1
      \<longleftrightarrow> snd (root_solver zd x_min x_max y_min y_max width height n roots
            max_iterations tol px py) \<in> {ZeroDerivative, BudgetExhausted})"
proof -
  have "newton_loop zd n roots max_iterations tol iter z
        = (\<lparr>pr_root_index = - 1, pr_iteration_count = iter\<rparr>, ZeroDerivative)"
    if "iter < max_iterations" "zd (newton_f' n z)"
    using that by (subst newton_loop.simps) simp
  moreover have "pr_root_index (fst R) = - 1 \<longleftrightarrow> snd R \<in> {ZeroDerivative, BudgetExhausted}"
    if "R = root_solver zd x_min x_max y_min y_max width height n roots max_iterations tol px py"
    for R
    using newton_loop_exit [where iter = 0 and max_iterations = max_iterations and zd = zd
        and n = n and roots = roots and tol = tol
        and z = "pixel_to_complex x_min x_max y_min y_max width height px py"] that
    by (cases "snd R") (auto simp: root_solver_def split: prod.splits)
  ultimately show ?thesis by blast
qed

theorem zero_derivative_exit_witness:
  "(0 :: int) < 100 \<and> exactly_zero (newton_f' 2 \<lparr>c_re = Fin 0, c_im = Fin 0\<rparr>) \<and>
   newton_loop exactly_zero 2 [\<lparr>c_re = Fin 1, c_im = Fin 0\<rparr>, \<lparr>c_re = Fin (- 1), c_im = Fin 0\<rparr>]
       100 (round32 (1 / 10 ^ 12)) 0 \<lparr>c_re = Fin 0, c_im = Fin 0\<rparr>
     = (\<lparr>pr_root_index = - 1, pr_iteration_count = 0\<rparr>, ZeroDerivative) \<and>
   root_solver exactly_zero (Fin (- 5)) (Fin 5) (Fin (- 5)) (Fin 5) 3 3 2
       [\<lparr>c_re = Fin 1, c_im = Fin 0\<rparr>, \<lparr>c_re = Fin (- 1), c_im = Fin 0\<rparr>] 100
       (round32 (1 / 10 ^ 12)) 1 1
     = (\<lparr>pr_root_index = - 1, pr_iteration_count = 0\<rparr>, ZeroDerivative)"
proof -
  have h: "(0 :: int) < 100" "exactly_zero (newton_f' 2 \<lparr>c_re = Fin 0, c_im = Fin 0\<rparr>)"
    by (simp_all add: exactly_zero_def c_eval)
  from zero_derivative_exit [of 0 100 exactly_zero 2 "\<lparr>c_re = Fin 0, c_im = Fin 0\<rparr>"] h
  have "newton_loop exactly_zero 2
       [\<lparr>c_re = Fin 1, c_im = Fin 0\<rparr>, \<lparr>c_re = Fin (- 1), c_im = Fin 0\<rparr>]
       100 (round32 (1 / 10 ^ 12)) 0 \<lparr>c_re = Fin 0, c_im = Fin 0\<rparr>
     = (\<lparr>pr_root_index = - 1, pr_iteration_count = 0\<rparr>, ZeroDerivative)" by blast
  with h solver_example_zero show ?thesis by (intro conjI)
qed

text \<open>
  C7, as amended: for every \<open>n\<close> from 1 on the root computation of \<^verbatim>\<open>main\<close> returns \<open>n\<close> roots;
  for \<open>k = 0, ..., n-1\<close> the \<open>k\<close>-th root is the pair of \<^verbatim>\<open>(float)cos(angle)\<close> and
  \<^verbatim>\<open>(float)sin(angle)\<close> for the double \<^verbatim>\<open>angle = 2.0 * M_PI * k / n\<close>, which is finite and
  within \<open>2^-48\<close> of \<open>2*pi*k/n\<close>. When the library's cosine and sine are within \<open>e < 1\<close> of the
  exact functions, both components of the \<open>k\<close>-th root are finite, the real part is within
  \<open>e + 2^-24 + 2^-48\<close> of \<open>cos (2*pi*k/n)\<close> and the imaginary part of \<open>sin (2*pi*k/n)\<close>, and
  the magnitude of the root is within \<open>4*t + 2*t^2\<close> of 1, where \<open>t = e + 2^-24\<close>.
\<close>

theorem roots_of_unity_computed:
  assumes "1 \<le>s n" "0 \<le>s k" "k <s n"
  shows "\<exists>roots a.
      compute_roots dcos dsin n = Some roots \<and> length roots = nat (sint n) \<and>
      roots ! nat (sint k) =
        \<lparr>c_re = f32_of_f64 (dcos (root_angle k n)), c_im = f32_of_f64 (dsin (root_angle k n))\<rparr> \<and>
      root_angle k n = DFin a \<and>
      \<bar>a - 2 * pi * real_of_int (sint k) / real_of_int (sint n)\<bar> \<le> 1 / 2 ^ 48 \<and>
      (libm_accurate e dcos dsin \<and> e < 1 \<longrightarrow>
        (\<exists>x y. roots ! nat (sint k) = \<lparr>c_re = Fin x, c_im = Fin y\<rparr> \<and>
           \<bar>x - cos (2 * pi * real_of_int (sint k) / real_of_int (sint n))\<bar>
             \<le> e + 1 / 2 ^ 24 + 1 / 2 ^ 48 \<and>
           \<bar>y - sin (2 * pi * real_of_int (sint k) / real_of_int (sint n))\<bar>
             \<le> e + 1 / 2 ^ 24 + 1 / 2 ^ 48 \<and>
           \<bar>sqrt (x\<^sup>2 + y\<^sup>2) - 1\<bar> \<le> 4 * (e + 1 / 2 ^ 24) + 2 * (e + 1 / 2 ^ 24)\<^sup>2))"
proof -
  from assms have k: "0 \<le> sint k" "sint k < sint n"
    by (simp_all add: word_sle_eq word_sless_alt)
  define th where "th = 2 * pi * real_of_int (sint k) / real_of_int (sint n)"
  from compute_roots_nth [OF k, of dcos dsin] obtain roots where
    roots: "compute_roots dcos dsin n = Some roots" "length roots = nat (sint n)"
      "roots ! nat (sint k) =
        \<lparr>c_re = f32_of_f64 (dcos (root_angle k n)), c_im = f32_of_f64 (dsin (root_angle k n))\<rparr>"
    by blast
  from root_angle_near [OF k] obtain a where
    a: "root_angle k n = DFin a" "\<bar>a - th\<bar> \<le> 1 / 2 ^ 48"
    unfolding th_def by blast
  have "\<exists>x y. roots ! nat (sint k) = \<lparr>c_re = Fin x, c_im = Fin y\<rparr> \<and>
           \<bar>x - cos th\<bar> \<le> e + 1 / 2 ^ 24 + 1 / 2 ^ 48 \<and>
           \<bar>y - sin th\<bar> \<le> e + 1 / 2 ^ 24 + 1 / 2 ^ 48 \<and>
           \<bar>sqrt (x\<^sup>2 + y\<^sup>2) - 1\<bar> \<le> 4 * (e + 1 / 2 ^ 24) + 2 * (e + 1 / 2 ^ 24)\<^sup>2"
    if acc: "libm_accurate e dcos dsin" and e: "e < 1"
  proof -
    from acc obtain c s where
      cs: "dcos (DFin a) = DFin c" "dsin (DFin a) = DFin s" "\<bar>c - cos a\<bar> \<le> e" "\<bar>s - sin a\<bar> \<le> e"
      unfolding libm_accurate_def by blast
    from libm_component [of c cos a e th, OF cs(3) e abs_cos_le_one cos_lipschitz a(2)]
    obtain x where x: "round32 c = Fin x" "\<bar>x - cos a\<bar> \<le> e + 1 / 2 ^ 24"
      "\<bar>x - cos th\<bar> \<le> e + 1 / 2 ^ 24 + 1 / 2 ^ 48" by blast
    from libm_component [of s sin a e th, OF cs(4) e abs_sin_le_one sin_lipschitz a(2)]
    obtain y where y: "round32 s = Fin y" "\<bar>y - sin a\<bar> \<le> e + 1 / 2 ^ 24"
      "\<bar>y - sin th\<bar> \<le> e + 1 / 2 ^ 24 + 1 / 2 ^ 48" by blast
    have "roots ! nat (sint k) = \<lparr>c_re = Fin x, c_im = Fin y\<rparr>"
      by (simp add: roots(3) a(1) cs(1,2) x(1) y(1))
    moreover note x(3) y(3) near_unit_circle [OF x(2) y(2)]
    ultimately show ?thesis by blast
  qed
  with roots a show ?thesis unfolding th_def by blast
qed

theorem roots_of_unity_computed_witness:
  "(1 :: c_int) \<le>s 4 \<and> (0 :: c_int) \<le>s 1 \<and> (1 :: c_int) <s 4 \<and>
   libm_accurate (1 / 2 ^ 53) rounded_cos rounded_sin \<and> (1 / 2 ^ 53 :: real) < 1 \<and>
   (\<exists>roots x y. compute_roots rounded_cos rounded_sin 4 = Some roots \<and> length roots = 4 \<and>
      roots ! 1 = \<lparr>c_re = Fin x, c_im = Fin y\<rparr> \<and>
      \<bar>x\<bar> \<le> 1 / 2 ^ 53 + 1 / 2 ^ 24 + 1 / 2 ^ 48 \<and>
      \<bar>y - 1\<bar> \<le> 1 / 2 ^ 53 + 1 / 2 ^ 24 + 1 / 2 ^ 48 \<and>
      \<bar>sqrt (x\<^sup>2 + y\<^sup>2) - 1\<bar> \<le> 4 * (1 / 2 ^ 53 + 1 / 2 ^ 24) + 2 * (1 / 2 ^ 53 + 1 / 2 ^ 24)\<^sup>2) \<and>
   compute_roots rounded_cos rounded_sin 1 = Some [\<lparr>c_re = Fin 1, c_im = Fin 0\<rparr>]"
proof -
  have h: "(1 :: c_int) \<le>s 4" "(0 :: c_int) \<le>s 1" "(1 :: c_int) <s 4"
    by (simp_all add: word_sle_eq word_sless_alt)
  have e: "(1 / 2 ^ 53 :: real) < 1" by simp
  have s: "nat (sint (4 :: c_int)) = 4" "nat (sint (1 :: c_int)) = 1" by simp_all
  have th: "2 * pi * real_of_int (sint (1 :: c_int)) / real_of_int (sint (4 :: c_int)) = pi / 2"
    by simp
  from roots_of_unity_computed [OF h, of rounded_cos rounded_sin "1 / 2 ^ 53"]
  obtain roots where
    roots: "compute_roots rounded_cos rounded_sin 4 = Some roots" "length roots = 4"
    and imp: "libm_accurate (1 / 2 ^ 53) rounded_cos rounded_sin \<and> (1 / 2 ^ 53 :: real) < 1 \<longrightarrow>
      (\<exists>x y. roots ! 1 = \<lparr>c_re = Fin x, c_im = Fin y\<rparr> \<and>
         \<bar>x - cos (pi / 2)\<bar> \<le> 1 / 2 ^ 53 + 1 / 2 ^ 24 + 1 / 2 ^ 48 \<and>
         \<bar>y - sin (pi / 2)\<bar> \<le> 1 / 2 ^ 53 + 1 / 2 ^ 24 + 1 / 2 ^ 48 \<and>
         \<bar>sqrt (x\<^sup>2 + y\<^sup>2) - 1\<bar> \<le> 4 * (1 / 2 ^ 53 + 1 / 2 ^ 24) + 2 * (1 / 2 ^ 53 + 1 / 2 ^ 24)\<^sup>2)"
    unfolding s th by blast
  from imp rounded_libm_accurate e obtain x y where
    "roots ! 1 = \<lparr>c_re = Fin x, c_im = Fin y\<rparr>"
    "\<bar>x - cos (pi / 2)\<bar> \<le> 1 / 2 ^ 53 + 1 / 2 ^ 24 + 1 / 2 ^ 48"
    "\<bar>y - sin (pi / 2)\<bar> \<le> 1 / 2 ^ 53 + 1 / 2 ^ 24 + 1 / 2 ^ 48"
    "\<bar>sqrt (x\<^sup>2 + y\<^sup>2) - 1\<bar> \<le> 4 * (1 / 2 ^ 53 + 1 / 2 ^ 24) + 2 * (1 / 2 ^ 53 + 1 / 2 ^ 24)\<^sup>2"
    by blast
  then have "roots ! 1 = \<lparr>c_re = Fin x, c_im = Fin y\<rparr> \<and>
      \<bar>x\<bar> \<le> 1 / 2 ^ 53 + 1 / 2 ^ 24 + 1 / 2 ^ 48 \<and>
      \<bar>y - 1\<bar> \<le> 1 / 2 ^ 53 + 1 / 2 ^ 24 + 1 / 2 ^ 48 \<and>
      \<bar>sqrt (x\<^sup>2 + y\<^sup>2) - 1\<bar> \<le> 4 * (1 / 2 ^ 53 + 1 / 2 ^ 24) + 2 * (1 / 2 ^ 53 + 1 / 2 ^ 24)\<^sup>2"
    by (simp only: cos_pi_half sin_pi_half diff_zero)
  with roots have "\<exists>roots x y. compute_roots rounded_cos rounded_sin 4 = Some roots \<and> length roots = 4 \<and>
      roots ! 1 = \<lparr>c_re = Fin x, c_im = Fin y\<rparr> \<and>
      \<bar>x\<bar> \<le> 1 / 2 ^ 53 + 1 / 2 ^ 24 + 1 / 2 ^ 48 \<and>
      \<bar>y - 1\<bar> \<le> 1 / 2 ^ 53 + 1 / 2 ^ 24 + 1 / 2 ^ 48 \<and>
      \<bar>sqrt (x\<^sup>2 + y\<^sup>2) - 1\<bar> \<le> 4 * (1 / 2 ^ 53 + 1 / 2 ^ 24) + 2 * (1 / 2 ^ 53 + 1 / 2 ^ 24)\<^sup>2"
    by blast
  with h e rounded_libm_accurate compute_roots_single show ?thesis by (intro conjI)
qed

text \<open>
  C7 as stated, with the \<open>k\<close>-th root equal to \<open>(cos (2*pi*k/n), sin (2*pi*k/n))\<close>, fails for
  \<open>n = 6\<close> and \<open>k = 1\<close>, whatever the library's cosine and sine return: the imaginary part
  would be \<open>sin (pi/3)\<close>, half the square root of 3, which no float is.
\<close>

theorem roots_of_unity_exact_counterexample:
  "(1 :: c_int) \<le>s 6 \<and>
   (\<forall>dcos dsin. \<exists>roots. compute_roots dcos dsin 6 = Some roots \<and> length roots = 6 \<and>
      roots ! 1 \<noteq> \<lparr>c_re = Fin (cos (2 * pi * 1 / 6)), c_im = Fin (sin (2 * pi * 1 / 6))\<rparr>)"
proof (intro conjI allI)
  show "(1 :: c_int) \<le>s 6" by (simp add: word_sle_eq)
next
  fix dcos dsin :: "f64 \<Rightarrow> f64"
  have k: "0 \<le> sint (1 :: c_int)" "sint (1 :: c_int) < sint (6 :: c_int)" by simp_all
  have s: "nat (sint (6 :: c_int)) = 6" "nat (sint (1 :: c_int)) = 1" by simp_all
  from compute_roots_nth [OF k, of dcos dsin] obtain roots where
    roots: "compute_roots dcos dsin 6 = Some roots" "length roots = 6"
      "roots ! 1 = \<lparr>c_re = f32_of_f64 (dcos (root_angle 1 6)),
                     c_im = f32_of_f64 (dsin (root_angle 1 6))\<rparr>"
    unfolding s by blast
  have "2 * pi * 1 / 6 = pi / 3" by simp
  then have v: "sin (2 * pi * 1 / 6) = sqrt 3 / 2" by (simp only: sin_60)
  have "f32_of_f64 d \<noteq> Fin (sqrt 3 / 2)" for d
  proof (cases d)
    case (DFin x)
    from binary32_not_sqrt3_half [of x "sqrt 3 / 2"] have "round32 x \<noteq> Fin (sqrt 3 / 2)"
      by blast
    with DFin show ?thesis by simp
  qed simp_all
  then have ne: "f32_of_f64 (dsin (root_angle 1 6)) \<noteq> Fin (sqrt 3 / 2)" .
  have im: "c_im (roots ! 1) = f32_of_f64 (dsin (root_angle 1 6))"
    by (simp only: roots(3) complex_f32.select_convs)
  have "roots ! 1 \<noteq> \<lparr>c_re = Fin (cos (2 * pi * 1 / 6)), c_im = Fin (sin (2 * pi * 1 / 6))\<rparr>"
  proof
    assume "roots ! 1 = \<lparr>c_re = Fin (cos (2 * pi * 1 / 6)), c_im = Fin (sin (2 * pi * 1 / 6))\<rparr>"
    then have "c_im (roots ! 1) = Fin (sin (2 * pi * 1 / 6))"
      by (simp only: complex_f32.select_convs)
    with im v ne show False by simp
  qed
  with roots(1,2) show "\<exists>roots. compute_roots dcos dsin 6 = Some roots \<and> length roots = 6 \<and>
      roots ! 1 \<noteq> \<lparr>c_re = Fin (cos (2 * pi * 1 / 6)), c_im = Fin (sin (2 * pi * 1 / 6))\<rparr>"
    by blast
qed

text \<open>
  C8: the root solver's result has a root index of \<open>{-1, 0, ..., n-1}\<close> and an iteration
  count of \<open>[0, max_iterations]\<close>.
\<close>

theorem root_solver_result_range:
  assumes "0 \<le> max_iterations" and "length roots = n"
  shows "pr_root_index (fst (root_solver zd x_min x_max y_min y_max width height n roots
             max_iterations tol px py)) \<in> {- 1 .. int n - 1} \<and>
         pr_iteration_count (fst (root_solver zd x_min x_max y_min y_max width height n roots
             max_iterations tol px py)) \<in> {0 .. max_iterations}"
  using newton_loop_result [where iter = 0 and max_iterations = max_iterations and zd = zd
      and n = n and roots = roots and tol = tol
      and z = "pixel_to_complex x_min x_max y_min y_max width height px py"] assms
  by (auto simp: root_solver_def split: prod.splits)

theorem root_solver_result_range_witness:
  "(0 :: int) \<le> 100 \<and> length [\<lparr>c_re = Fin 1, c_im = Fin 0\<rparr>] = 1 \<and>
   fst (root_solver exactly_zero (Fin (- 5)) (Fin 5) (Fin (- 5)) (Fin 5) 3 3 1
          [\<lparr>c_re = Fin 1, c_im = Fin 0\<rparr>] 100 (round32 (1 / 10 ^ 12)) 1 1)
     = \<lparr>pr_root_index = 0, pr_iteration_count = 1\<rparr> \<and>
   pr_root_index (fst (root_solver exactly_zero (Fin (- 5)) (Fin 5) (Fin (- 5)) (Fin 5) 3 3 1
          [\<lparr>c_re = Fin 1, c_im = Fin 0\<rparr>] 100 (round32 (1 / 10 ^ 12)) 1 1)) \<in> {- 1 .. int 1 - 1} \<and>
   pr_iteration_count (fst (root_solver exactly_zero (Fin (- 5)) (Fin 5) (Fin (- 5)) (Fin 5) 3 3 1
          [\<lparr>c_re = Fin 1, c_im = Fin 0\<rparr>] 100 (round32 (1 / 10 ^ 12)) 1 1)) \<in> {0 .. 100}"
proof -
  have h: "(0 :: int) \<le> 100" "length [\<lparr>c_re = Fin 1, c_im = Fin 0\<rparr>] = 1" by simp_all
  from root_solver_result_range [OF h, of exactly_zero "Fin (- 5)" "Fin 5" "Fin (- 5)" "Fin 5"
      3 3 "round32 (1 / 10 ^ 12)" 1 1] h solver_example_converged
  show ?thesis by (intro conjI) simp_all
qed

text \<open>
  C9: with \<open>gamma = 1\<close> the colorizer is monotone in brightness. For iteration counts
  \<open>0 \<le> a \<le> b \<le> max_iterations\<close> the HSV value computed for \<open>a\<close> is at least the one
  computed for \<open>b\<close>. For a root index that is not negative and a positive \<open>n\<close>, the two
  colors are either both undefined (the hue's sector does not fit an \<^verbatim>\<open>int\<close>) or both
  defined, the value channel (the largest channel) of the color for \<open>a\<close> being at least
  that of the color for \<open>b\<close>; for a root index of \<open>[0, n)\<close> they are defined.
\<close>

theorem brightness_monotone:
  assumes pw: "pow_exponent_one pow"
    and m: "0 <s max_iterations" and ab: "0 \<le>s a" "a \<le>s b" "b \<le>s max_iterations"
  shows "f32_le (pixel_value pow max_iterations (Fin 1) b)
               (pixel_value pow max_iterations (Fin 1) a) \<and>
         (0 \<le>s root_index \<and> 0 <s n \<longrightarrow>
            pixel_color pow n max_iterations (Fin 1) root_index a = None \<and>
            pixel_color pow n max_iterations (Fin 1) root_index b = None \<or>
            (\<exists>ca cb. pixel_color pow n max_iterations (Fin 1) root_index a = Some ca \<and>
                     pixel_color pow n max_iterations (Fin 1) root_index b = Some cb \<and>
                     rgb_value cb \<le> rgb_value ca)) \<and>
         (0 \<le>s root_index \<and> root_index <s n \<longrightarrow>
            (\<exists>ca cb. pixel_color pow n max_iterations (Fin 1) root_index a = Some ca \<and>
                     pixel_color pow n max_iterations (Fin 1) root_index b = Some cb \<and>
                     rgb_value cb \<le> rgb_value ca))"
proof -
  from m ab have si: "1 \<le> sint max_iterations" "0 \<le> sint a" "sint a \<le> sint b"
    "sint b \<le> sint max_iterations"
    by (simp_all add: word_sle_eq word_sless_alt)
  then have sa: "sint a \<le> sint max_iterations" and sb: "0 \<le> sint b" by simp_all
  from one_minus_ratio [OF si(2) sa si(1)] obtain ra where
    ra: "f32_sub (Fin 1) (f32_div (f32_of_c_int a) (f32_of_c_int max_iterations)) = Fin ra"
      "ra = rnd (1 - rnd (rnd (of_int (sint a)) / rnd (of_int (sint max_iterations))))"
      "0 \<le> ra" "ra \<le> 1" "round32 ra = Fin ra" by blast
  from one_minus_ratio [OF sb si(4) si(1)] obtain rb where
    rb: "f32_sub (Fin 1) (f32_div (f32_of_c_int b) (f32_of_c_int max_iterations)) = Fin rb"
      "rb = rnd (1 - rnd (rnd (of_int (sint b)) / rnd (of_int (sint max_iterations))))"
      "0 \<le> rb" "rb \<le> 1" "round32 rb = Fin rb" by blast
  from pw ra(5) have pa: "pow (Fin ra) (Fin 1) = Fin ra" by (simp add: pow_exponent_one_def)
  from pw rb(5) have pb: "pow (Fin rb) (Fin 1) = Fin rb" by (simp add: pow_exponent_one_def)
  have va: "pixel_value pow max_iterations (Fin 1) a = Fin ra"
    by (simp add: pixel_value_def ra(1) pa)
  have vb: "pixel_value pow max_iterations (Fin 1) b = Fin rb"
    by (simp add: pixel_value_def rb(1) pb)
  have "1 - rnd (rnd (of_int (sint b)) / rnd (of_int (sint max_iterations)))
      \<le> 1 - rnd (rnd (of_int (sint a)) / rnd (of_int (sint max_iterations)))"
    using ratio_mono [OF si(3) si(1)] by linarith
  then have le: "rb \<le> ra" unfolding ra(2) rb(2) by (rule rnd_mono)
  then have first: "f32_le (pixel_value pow max_iterations (Fin 1) b)
      (pixel_value pow max_iterations (Fin 1) a)" by (simp add: va vb)
  have ua: "in_unit (Fin ra)" "is_f32 (Fin ra)" using ra by simp_all
  have ub: "in_unit (Fin rb)" "is_f32 (Fin rb)" using rb by simp_all
  have s0: "\<not> f32_eq (round32 (9 / 10)) (Fin 0)" by (simp add: saturation_value)
  have defined: "\<exists>ca cb. pixel_color pow n max_iterations (Fin 1) root_index a = Some ca \<and>
      pixel_color pow n max_iterations (Fin 1) root_index b = Some cb \<and>
      rgb_value cb \<le> rgb_value ca"
    if ne: "root_index \<noteq> - 1"
      and hx: "f32_mul (pixel_hue root_index n) (Fin 6) = Fin x" "round32 x = Fin x" "0 \<le> x"
        "x < 2 ^ 31" for x
  proof -
    from hsv_to_rgb_value_sector [OF hx saturation_unit ua] obtain ca wa where
      ca: "hsv_to_rgb (pixel_hue root_index n) (round32 (9 / 10)) (Fin ra) = Some ca"
        "to_uchar (f32_mul (Fin ra) (Fin 255)) = Some wa" "rgb_value ca = wa" by blast
    from hsv_to_rgb_value_sector [OF hx saturation_unit ub] obtain cb wb where
      cb: "hsv_to_rgb (pixel_hue root_index n) (round32 (9 / 10)) (Fin rb) = Some cb"
        "to_uchar (f32_mul (Fin rb) (Fin 255)) = Some wb" "rgb_value cb = wb" by blast
    from le have "f32_le (Fin rb) (Fin ra)" by simp
    with ub(1) ua(1) have "wb \<le> wa" using cb(2) ca(2) by (rule uchar_scale_mono)
    with ca cb ne show ?thesis by (simp add: pixel_color_def va vb)
  qed
  have second: "pixel_color pow n max_iterations (Fin 1) root_index a = None \<and>
      pixel_color pow n max_iterations (Fin 1) root_index b = None \<or>
      (\<exists>ca cb. pixel_color pow n max_iterations (Fin 1) root_index a = Some ca \<and>
         pixel_color pow n max_iterations (Fin 1) root_index b = Some cb \<and>
         rgb_value cb \<le> rgb_value ca)" if r: "0 \<le>s root_index" "0 <s n"
  proof -
    from r have sr: "0 \<le> sint root_index" "1 \<le> sint n"
      by (simp_all add: word_sle_eq word_sless_alt)
    then have ne: "root_index \<noteq> - 1" by (intro sint_nonneg_neq_minus1)
    from pixel_hue_nonneg [OF sr] obtain hr x where
      x: "f32_mul (pixel_hue root_index n) (Fin 6) = Fin x" "round32 x = Fin x" "0 \<le> x" by blast
    show ?thesis
    proof (cases "x < 2 ^ 31")
      case True
      with ne x show ?thesis by (intro disjI2 defined)
    next
      case False
      then have "(2 :: int) ^ 31 \<le> \<lfloor>x\<rfloor>" by (simp add: le_floor_iff)
      with x(3) have "to_int (f32_mul (pixel_hue root_index n) (Fin 6)) = None"
        by (simp add: x(1) trunc_nonneg)
      with s0 have "hsv_to_rgb (pixel_hue root_index n) (round32 (9 / 10)) v = None" for v
        by (rule hsv_to_rgb_undefined)
      with ne show ?thesis by (simp add: pixel_color_def)
    qed
  qed
  have third: "\<exists>ca cb. pixel_color pow n max_iterations (Fin 1) root_index a = Some ca \<and>
      pixel_color pow n max_iterations (Fin 1) root_index b = Some cb \<and>
      rgb_value cb \<le> rgb_value ca" if r: "0 \<le>s root_index" "root_index <s n"
  proof -
    from r have sr: "0 \<le> sint root_index" "sint root_index < sint n"
      by (simp_all add: word_sle_eq word_sless_alt)
    then have ne: "root_index \<noteq> - 1" by (intro sint_nonneg_neq_minus1)
    note hu = pixel_hue_unit [OF sr]
    from hsv_to_rgb_value [OF hu saturation_unit ua] obtain ca wa where
      ca: "hsv_to_rgb (pixel_hue root_index n) (round32 (9 / 10)) (Fin ra) = Some ca"
        "to_uchar (f32_mul (Fin ra) (Fin 255)) = Some wa" "rgb_value ca = wa" by blast
    from hsv_to_rgb_value [OF hu saturation_unit ub] obtain cb wb where
      cb: "hsv_to_rgb (pixel_hue root_index n) (round32 (9 / 10)) (Fin rb) = Some cb"
        "to_uchar (f32_mul (Fin rb) (Fin 255)) = Some wb" "rgb_value cb = wb" by blast
    from le have "f32_le (Fin rb) (Fin ra)" by simp
    with ub(1) ua(1) have "wb \<le> wa" using cb(2) ca(2) by (rule uchar_scale_mono)
    with ca cb ne show ?thesis by (simp add: pixel_color_def va vb)
  qed
  from first second third show ?thesis by blast
qed

theorem brightness_monotone_witness:
  "pow_exponent_one pow_nat_exponent \<and> (0 :: c_int) <s 100 \<and> (0 :: c_int) \<le>s 3 \<and>
   (3 :: c_int) \<le>s 7 \<and> (7 :: c_int) \<le>s 100 \<and> (0 :: c_int) \<le>s 2 \<and> (2 :: c_int) <s 5 \<and>
   (0 :: c_int) <s 5 \<and>
   f32_le (pixel_value pow_nat_exponent 100 (Fin 1) 7) (pixel_value pow_nat_exponent 100 (Fin 1) 3) \<and>
   (\<exists>ca cb. pixel_color pow_nat_exponent 5 100 (Fin 1) 2 3 = Some ca \<and>
            pixel_color pow_nat_exponent 5 100 (Fin 1) 2 7 = Some cb \<and>
            rgb_value cb \<le> rgb_value ca) \<and>
   pixel_color pow_nat_exponent 1 100 (Fin 1) 2147483647 3 = None"
proof -
  note p = pow_nat_exponent_one
  have h: "(0 :: c_int) <s 100" "(0 :: c_int) \<le>s 3" "(3 :: c_int) \<le>s 7" "(7 :: c_int) \<le>s 100"
    "(0 :: c_int) \<le>s 2" "(2 :: c_int) <s 5" "(0 :: c_int) <s 5"
    by (simp_all add: word_sle_eq word_sless_alt)
  from brightness_monotone [OF p h(1,2,3,4), of 2 5] p h huge_hue_undefined
  show ?thesis by blast
qed

text \<open>
  C10: for a root index of \<open>[0, n)\<close> and \<open>gamma > 0\<close>, a pixel whose iteration count equals
  \<open>max_iterations\<close> is colored black: its value is \<open>pow(0, gamma) = 0\<close>, which zeroes every
  channel. It gets the color of an unconverged pixel.
\<close>

theorem converged_at_budget_black:
  assumes pw: "pow_zero_base pow" and g: "f32_lt (Fin 0) gamma"
    and r: "0 \<le>s root_index" "root_index <s n" and m: "0 <s max_iterations"
  shows "pixel_color pow n max_iterations gamma root_index max_iterations = Some black \<and>
         pixel_color pow n max_iterations gamma root_index max_iterations
           = pixel_color pow n max_iterations gamma (- 1) iters"
proof -
  from r m have sr: "0 \<le> sint root_index" "sint root_index < sint n"
    and sm: "1 \<le> sint max_iterations"
    by (simp_all add: word_sle_eq word_sless_alt)
  from sr have ne: "root_index \<noteq> - 1" by (intro sint_nonneg_neq_minus1)
  have "rnd 1 \<le> rnd (of_int (sint max_iterations))" using sm
    by (intro rnd_mono) (simp del: of_int_sint)
  then have "rnd (of_int (sint max_iterations)) \<noteq> 0" by (simp del: of_int_sint)
  then have "f32_div (f32_of_c_int max_iterations) (f32_of_c_int max_iterations) = Fin 1"
    by (simp add: f32_of_c_int_rnd del: of_int_sint)
  then have "f32_sub (Fin 1) (f32_div (f32_of_c_int max_iterations) (f32_of_c_int max_iterations))
      = Fin 0" by (simp add: f32_sub_def)
  with pw g have v: "pixel_value pow max_iterations gamma max_iterations = Fin 0"
    by (simp add: pixel_value_def pow_zero_base_def)
  have z: "in_unit (Fin 0)" "is_f32 (Fin 0)" by simp_all
  from hsv_to_rgb_value [OF pixel_hue_unit [OF sr] saturation_unit z] obtain c w where
    c: "hsv_to_rgb (pixel_hue root_index n) (round32 (9 / 10)) (Fin 0) = Some c"
      "to_uchar (f32_mul (Fin 0) (Fin 255)) = Some w" "rgb_value c = w" by blast
  from c(2) have "w = 0" by (simp add: trunc_def)
  with c(3) have "c = black" by (intro rgb_value_zero) simp
  with c(1) ne v show ?thesis by (simp add: pixel_color_def)
qed

theorem converged_at_budget_black_witness:
  "pow_zero_base pow_nat_exponent \<and> f32_lt (Fin 0) (Fin 4) \<and> (0 :: c_int) \<le>s 2 \<and>
   (2 :: c_int) <s 5 \<and> (0 :: c_int) <s 100 \<and>
   pixel_color pow_nat_exponent 5 100 (Fin 4) 2 100 = Some black \<and>
   pixel_color pow_nat_exponent 5 100 (Fin 4) 2 100
     = pixel_color pow_nat_exponent 5 100 (Fin 4) (- 1) 0"
proof -
  note p = pow_nat_exponent_zero
  have h: "f32_lt (Fin 0) (Fin 4)" "(0 :: c_int) \<le>s 2" "(2 :: c_int) <s 5" "(0 :: c_int) <s 100"
    by (simp_all add: word_sle_eq word_sless_alt)
  from converged_at_budget_black [OF p h, of 0] p h show ?thesis by blast
qed

end
